theory Spec2Isabelle
  imports Main "HOL-Library.Numeral_Type"
begin

section \<open>The pairing library\<close>

text \<open>
  Both modules compute with the classes and functions of the package \<open>bn254\<close>
  (\<open>big\<close>, \<open>curve\<close>, \<open>ecp\<close>, \<open>ecp2\<close>, \<open>fp12\<close>, \<open>pair\<close>) and with \<open>hashlib\<close>.
  Neither is part of the repository, so the operations the program calls are a parameter
  of the model: a record with one field per library operation. \<open>'a\<close> is the type of the
  elements of the first source group (class \<open>ECp\<close>), \<open>'b\<close> that of the second source group
  (class \<open>ECp2\<close>), \<open>'t\<close> the type of the target field (class \<open>Fp12\<close>). Scalars are the
  non-negative Python integers the program builds from samples, products and inverses.
\<close>

record ('a, 'b, 't) bn254 =
  curve_r :: nat  \<comment> \<open>\<open>curve.r\<close>, the group order\<close>
  curve_x :: nat  \<comment> \<open>\<open>curve.x\<close>\<close>
  curve_EFS :: nat  \<comment> \<open>\<open>curve.EFS\<close>, the digest length\<close>
  ecp_inf :: 'a  \<comment> \<open>\<open>ecp.ECp()\<close>, the neutral point\<close>
  ecp2_inf :: 'b  \<comment> \<open>\<open>ecp2.ECp2()\<close>\<close>
  fp12_one :: 't  \<comment> \<open>the unit of \<open>Fp12\<close>\<close>
  ecp_generator :: 'a  \<comment> \<open>\<open>ecp.generator()\<close>\<close>
  ecp2_generator :: 'b  \<comment> \<open>\<open>ecp2.generator()\<close>\<close>
  ecp_add :: "'a \<Rightarrow> 'a \<Rightarrow> 'a"  \<comment> \<open>\<open>ECp.add\<close>\<close>
  ecp2_add :: "'b \<Rightarrow> 'b \<Rightarrow> 'b"  \<comment> \<open>\<open>ECp2.add\<close>\<close>
  ecp_mul :: "nat \<Rightarrow> 'a \<Rightarrow> 'a"  \<comment> \<open>\<open>ECp.__rmul__\<close>: scalar times point\<close>
  ecp2_mul :: "nat \<Rightarrow> 'b \<Rightarrow> 'b"  \<comment> \<open>\<open>ECp2.__rmul__\<close>\<close>
  fp12_mul :: "'t \<Rightarrow> 't \<Rightarrow> 't"  \<comment> \<open>\<open>Fp12.__mul__\<close>\<close>
  pair_e :: "'b \<Rightarrow> 'a \<Rightarrow> 't"  \<comment> \<open>the value \<open>pair.e\<close> returns for an \<open>ECp2\<close> and an \<open>ECp\<close>, neither neutral\<close>
  invmodp :: "nat \<Rightarrow> nat \<Rightarrow> nat"  \<comment> \<open>\<open>big.invmodp\<close>\<close>
  from_bytes :: "nat list \<Rightarrow> nat"  \<comment> \<open>\<open>big.from_bytes\<close>\<close>
  ecp_set :: "nat \<Rightarrow> 'a option"  \<comment> \<open>\<open>ECp.set\<close>: the point with that abscissa, if there is one\<close>
  shake_256 :: "string \<Rightarrow> nat \<Rightarrow> nat list"  \<comment> \<open>\<open>hashlib.shake_256\<close> of the bytes, digest of the given length\<close>

text \<open>
  The contract of the library (section 6 of the specification): both source groups are
  commutative, written additively, scalar multiplication is repeated addition, every
  element is annihilated by \<open>curve.r\<close> and no other multiple of a point that is not
  neutral is neutral (the order is prime); the generators are not neutral; the target is
  a commutative monoid; \<open>invmodp\<close> inverts the scalars that are not multiples of
  \<open>curve.r\<close>.

  \<open>pair.e\<close> returns no value when one of its operands is the neutral point: it raises
  \<open>TypeError\<close>. The laws of the pairing therefore speak only of the values it returns,
  at points that are not neutral: it is additive in each argument, and the pairings of
  two opposite points multiply to the unit.
\<close>

definition ecp_group :: "('a, 'b, 't) bn254 \<Rightarrow> bool" where
  "ecp_group L \<longleftrightarrow>
     (\<forall>P Q R. ecp_add L (ecp_add L P Q) R = ecp_add L P (ecp_add L Q R)) \<and>
     (\<forall>P Q. ecp_add L P Q = ecp_add L Q P) \<and>
     (\<forall>P. ecp_add L (ecp_inf L) P = P) \<and>
     (\<forall>P. ecp_mul L 0 P = ecp_inf L) \<and>
     (\<forall>n P. ecp_mul L (Suc n) P = ecp_add L P (ecp_mul L n P)) \<and>
     (\<forall>P. ecp_mul L (curve_r L) P = ecp_inf L) \<and>
     (\<forall>k P. P \<noteq> ecp_inf L \<and> k mod curve_r L \<noteq> 0 \<longrightarrow> ecp_mul L k P \<noteq> ecp_inf L)"

definition ecp2_group :: "('a, 'b, 't) bn254 \<Rightarrow> bool" where
  "ecp2_group L \<longleftrightarrow>
     (\<forall>P Q R. ecp2_add L (ecp2_add L P Q) R = ecp2_add L P (ecp2_add L Q R)) \<and>
     (\<forall>P Q. ecp2_add L P Q = ecp2_add L Q P) \<and>
     (\<forall>P. ecp2_add L (ecp2_inf L) P = P) \<and>
     (\<forall>P. ecp2_mul L 0 P = ecp2_inf L) \<and>
     (\<forall>n P. ecp2_mul L (Suc n) P = ecp2_add L P (ecp2_mul L n P)) \<and>
     (\<forall>P. ecp2_mul L (curve_r L) P = ecp2_inf L) \<and>
     (\<forall>k P. P \<noteq> ecp2_inf L \<and> k mod curve_r L \<noteq> 0 \<longrightarrow> ecp2_mul L k P \<noteq> ecp2_inf L)"

definition fp12_monoid :: "('a, 'b, 't) bn254 \<Rightarrow> bool" where
  "fp12_monoid L \<longleftrightarrow>
     (\<forall>s t u. fp12_mul L (fp12_mul L s t) u = fp12_mul L s (fp12_mul L t u)) \<and>
     (\<forall>s t. fp12_mul L s t = fp12_mul L t s) \<and>
     (\<forall>t. fp12_mul L (fp12_one L) t = t)"

definition bilinear :: "('a, 'b, 't) bn254 \<Rightarrow> bool" where
  "bilinear L \<longleftrightarrow>
     (\<forall>Q Q' P. Q \<noteq> ecp2_inf L \<and> Q' \<noteq> ecp2_inf L \<and> P \<noteq> ecp_inf L \<longrightarrow>
        (if ecp2_add L Q Q' = ecp2_inf L
         then fp12_mul L (pair_e L Q P) (pair_e L Q' P) = fp12_one L
         else pair_e L (ecp2_add L Q Q') P = fp12_mul L (pair_e L Q P) (pair_e L Q' P))) \<and>
     (\<forall>Q P P'. Q \<noteq> ecp2_inf L \<and> P \<noteq> ecp_inf L \<and> P' \<noteq> ecp_inf L \<longrightarrow>
        (if ecp_add L P P' = ecp_inf L
         then fp12_mul L (pair_e L Q P) (pair_e L Q P') = fp12_one L
         else pair_e L Q (ecp_add L P P') = fp12_mul L (pair_e L Q P) (pair_e L Q P')))"

definition generators_ok :: "('a, 'b, 't) bn254 \<Rightarrow> bool" where
  "generators_ok L \<longleftrightarrow> ecp_generator L \<noteq> ecp_inf L \<and> ecp2_generator L \<noteq> ecp2_inf L"

definition scalar_field :: "('a, 'b, 't) bn254 \<Rightarrow> bool" where
  "scalar_field L \<longleftrightarrow>
     1 < curve_r L \<and>
     (\<forall>s. s mod curve_r L \<noteq> 0 \<longrightarrow> (invmodp L s (curve_r L) * s) mod curve_r L = 1)"

definition bn254_ok :: "('a, 'b, 't) bn254 \<Rightarrow> bool" where
  "bn254_ok L \<longleftrightarrow>
     ecp_group L \<and> ecp2_group L \<and> fp12_monoid L \<and> bilinear L \<and> generators_ok L \<and>
     scalar_field L"

subsection \<open>Randomness\<close>

text \<open>
  \<open>big.rand\<close> reads the system's random source. The state of the source is the sequence
  of the values it will return; a call returns the first and leaves the rest.
  \<open>rng_ok\<close> is the contract of the sampler that the correctness properties rest on:
  no sample is a multiple of \<open>curve.r\<close>.
\<close>

type_synonym rng = "nat \<Rightarrow> nat"

definition big_rand :: "nat \<Rightarrow> rng \<Rightarrow> nat \<times> rng" where
  "big_rand m g = (g 0, \<lambda>n. g (Suc n))"

definition rng_ok :: "('a, 'b, 't) bn254 \<Rightarrow> rng \<Rightarrow> bool" where
  "rng_ok L g \<longleftrightarrow> (\<forall>n. g n mod curve_r L \<noteq> 0)"

subsection \<open>Python values and exceptions\<close>

text \<open>
  Python is dynamically typed: the same list may hold \<open>ECp\<close> or \<open>ECp2\<close> objects, and the
  two schemes share code that multiplies either by a scalar. A point is therefore a
  tagged value. An operation applied to operands of a class it is not defined for is
  modelled as raising \<open>TypeError\<close>.
\<close>

datatype ('a, 'b) point = ECp 'a | ECp2 'b

datatype error = TypeError | IndexError | AssertionError

definition err_bind :: "error + 'x \<Rightarrow> ('x \<Rightarrow> error + 'y) \<Rightarrow> error + 'y" where
  "err_bind m f = (case m of Inl err \<Rightarrow> Inl err | Inr v \<Rightarrow> f v)"

text \<open>\<open>k * P\<close> for a scalar \<open>k\<close>: dispatches to the class of \<open>P\<close>.\<close>

fun smul :: "('a, 'b, 't) bn254 \<Rightarrow> nat \<Rightarrow> ('a, 'b) point \<Rightarrow> ('a, 'b) point" where
  "smul L k (ECp P) = ECp (ecp_mul L k P)"
| "smul L k (ECp2 Q) = ECp2 (ecp2_mul L k Q)"

text \<open>\<open>a.add(b)\<close>\<close>

fun padd :: "('a, 'b, 't) bn254 \<Rightarrow> ('a, 'b) point \<Rightarrow> ('a, 'b) point \<Rightarrow> error + ('a, 'b) point" where
  "padd L (ECp P) (ECp P') = Inr (ECp (ecp_add L P P'))"
| "padd L (ECp2 Q) (ECp2 Q') = Inr (ECp2 (ecp2_add L Q Q'))"
| "padd L _ _ = Inl TypeError"

text \<open>
  \<open>self.e(P, Q)\<close>, that is \<open>pair.e\<close>: it takes an \<open>ECp2\<close> and an \<open>ECp\<close>, in
  this order, and raises \<open>TypeError\<close> when either is the neutral point.
\<close>

fun e :: "('a, 'b, 't) bn254 \<Rightarrow> ('a, 'b) point \<Rightarrow> ('a, 'b) point \<Rightarrow> error + 't" where
  "e L (ECp2 Q) (ECp P) =
     (if Q = ecp2_inf L \<or> P = ecp_inf L then Inl TypeError else Inr (pair_e L Q P))"
| "e L _ _ = Inl TypeError"

text \<open>
  \<open>functools.reduce(f, xs)\<close> without an initial value: a left fold from the first
  element; \<open>TypeError\<close> on the empty list.
\<close>

fun reduce_from :: "('x \<Rightarrow> 'x \<Rightarrow> error + 'x) \<Rightarrow> 'x \<Rightarrow> 'x list \<Rightarrow> error + 'x" where
  "reduce_from f a [] = Inr a"
| "reduce_from f a (b # bs) = err_bind (f a b) (\<lambda>c. reduce_from f c bs)"

fun reduce :: "('x \<Rightarrow> 'x \<Rightarrow> error + 'x) \<Rightarrow> 'x list \<Rightarrow> error + 'x" where
  "reduce f [] = Inl TypeError"
| "reduce f (a # bs) = reduce_from f a bs"

text \<open>A list comprehension whose element expression may raise: the first error wins.\<close>

fun comprehension :: "('x \<Rightarrow> error + 'y) \<Rightarrow> 'x list \<Rightarrow> error + 'y list" where
  "comprehension f [] = Inr []"
| "comprehension f (x # xs) =
     err_bind (f x) (\<lambda>y. err_bind (comprehension f xs) (\<lambda>ys. Inr (y # ys)))"

section \<open>mercurial\_signature\_scheme.py\<close>

type_synonym ('a, 'b) signature = "('a, 'b) point \<times> ('a, 'b) point \<times> ('a, 'b) point"

subsection \<open>class MercurialSignatureScheme\<close>

definition random_zp :: "('a, 'b, 't) bn254 \<Rightarrow> rng \<Rightarrow> nat \<times> rng" where
  "random_zp L g = big_rand (curve_r L) g"

text \<open>
  \<open>key_gen\<close>: the loop appends one sampled scalar to \<open>secret_key\<close> and its multiple of
  \<open>phat\<close> to \<open>public_key\<close>, \<open>ell\<close> times (\<open>range\<close> of a negative number is empty).
\<close>

fun key_gen_loop ::
  "('a, 'b, 't) bn254 \<Rightarrow> nat \<Rightarrow> nat list \<Rightarrow> ('a, 'b) point list \<Rightarrow> rng
    \<Rightarrow> (('a, 'b) point list \<times> nat list) \<times> rng" where
  "key_gen_loop L 0 secret_key public_key g = ((public_key, secret_key), g)"
| "key_gen_loop L (Suc n) secret_key public_key g =
     (let (x, g') = random_zp L g;
          w = smul L x (ECp2 (ecp2_generator L))
      in key_gen_loop L n (secret_key @ [x]) (public_key @ [w]) g')"

definition key_gen ::
  "('a, 'b, 't) bn254 \<Rightarrow> int \<Rightarrow> rng \<Rightarrow> (('a, 'b) point list \<times> nat list) \<times> rng" where
  "key_gen L ell g = key_gen_loop L (nat ell) [] [] g"

definition sign ::
  "('a, 'b, 't) bn254 \<Rightarrow> nat list \<Rightarrow> ('a, 'b) point list \<Rightarrow> rng
    \<Rightarrow> (error + ('a, 'b) signature) \<times> rng" where
  "sign L secret_key message g =
     (let (y, g') = random_zp L g
      in (err_bind (reduce (padd L) (map (\<lambda>(xi, mi). smul L xi mi) (zip secret_key message)))
            (\<lambda>s. let z = smul L y s;
                     y_inv = invmodp L y (curve_r L);
                     y_inv_p = smul L y_inv (ECp (ecp_generator L));
                     y_inv_phat = smul L y_inv (ECp2 (ecp2_generator L))
                 in Inr (z, y_inv_p, y_inv_phat)),
          g'))"

text \<open>
  \<open>verify\<close>: Python's \<open>and\<close> evaluates its second operand only when the first is true.
\<close>

definition verify ::
  "('a, 'b, 't) bn254 \<Rightarrow> ('a, 'b) point list \<Rightarrow> ('a, 'b) point list \<Rightarrow> ('a, 'b) signature
    \<Rightarrow> error + bool" where
  "verify L public_key message signature =
     (case signature of (z, y_inv_p, y_inv_phat) \<Rightarrow>
        err_bind (comprehension (\<lambda>(xi, mi). e L xi mi) (zip public_key message)) (\<lambda>es.
        err_bind (reduce (\<lambda>a b. Inr (fp12_mul L a b)) es) (\<lambda>q1.
        err_bind (e L y_inv_phat z) (\<lambda>t.
          if q1 = t
          then err_bind (e L (ECp2 (ecp2_generator L)) y_inv_p) (\<lambda>u.
               err_bind (e L y_inv_phat (ECp (ecp_generator L))) (\<lambda>v. Inr (u = v)))
          else Inr False))))"

definition convert_secret_key :: "nat list \<Rightarrow> nat \<Rightarrow> nat list" where
  "convert_secret_key secret_key rho = map (\<lambda>xi. rho * xi) secret_key"

definition convert_public_key ::
  "('a, 'b, 't) bn254 \<Rightarrow> ('a, 'b) point list \<Rightarrow> nat \<Rightarrow> ('a, 'b) point list" where
  "convert_public_key L public_key rho = map (\<lambda>Xi. smul L rho Xi) public_key"

definition convert_signature ::
  "('a, 'b, 't) bn254 \<Rightarrow> ('a, 'b) point list \<Rightarrow> ('a, 'b) point list \<Rightarrow> ('a, 'b) signature
    \<Rightarrow> nat \<Rightarrow> rng \<Rightarrow> ('a, 'b) signature \<times> rng" where
  "convert_signature L public_key message signature rho g =
     (case signature of (z, y, yhat) \<Rightarrow>
        let (psi, g') = random_zp L g
        in ((smul L (psi * rho) z,
             smul L (invmodp L psi (curve_r L)) y,
             smul L (invmodp L psi (curve_r L)) yhat),
            g'))"

definition change_representation ::
  "('a, 'b, 't) bn254 \<Rightarrow> ('a, 'b) point list \<Rightarrow> ('a, 'b) point list \<Rightarrow> ('a, 'b) signature
    \<Rightarrow> nat \<Rightarrow> rng \<Rightarrow> (('a, 'b) point list \<times> ('a, 'b) signature) \<times> rng" where
  "change_representation L public_key message signature mu g =
     (case signature of (z, y, yhat) \<Rightarrow>
        let (psi, g') = random_zp L g;
            message0 = map (\<lambda>m. smul L mu m) message;
            signature0 = (smul L (psi * mu) z,
                          smul L (invmodp L psi (curve_r L)) y,
                          smul L (invmodp L psi (curve_r L)) yhat)
        in ((message0, signature0), g'))"

text \<open>
  \<open>hash_message\<close>: the digest read as a number, then the first abscissa from there on
  that \<open>ECp.set\<close> accepts, times \<open>curve.x\<close>. The \<open>while\<close> loop has no bound, so the model
  is a partial function: \<open>None\<close> is the loop that never ends.
\<close>

partial_function (option) hm_loop :: "(nat \<Rightarrow> 'a option) \<Rightarrow> nat \<Rightarrow> 'a option" where
  "hm_loop set_x hm = (case set_x hm of Some P \<Rightarrow> Some P | None \<Rightarrow> hm_loop set_x (hm + 1))"

definition hash_message :: "('a, 'b, 't) bn254 \<Rightarrow> string \<Rightarrow> ('a, 'b) point option" where
  "hash_message L message =
     (let hm = from_bytes L (shake_256 L message (curve_EFS L))
      in case hm_loop (ecp_set L) hm of
           None \<Rightarrow> None
         | Some hm_point \<Rightarrow> Some (smul L (curve_x L) (ECp hm_point)))"

subsection \<open>class MercurialSignatureDual\<close>

text \<open>
  The subclass overrides \<open>key_gen\<close>, \<open>sign\<close>, \<open>verify\<close> and \<open>hash_message\<close>; the conversions
  and \<open>random_zp\<close> are inherited, so they are the functions above.
\<close>

fun dual_key_gen_loop ::
  "('a, 'b, 't) bn254 \<Rightarrow> nat \<Rightarrow> nat list \<Rightarrow> ('a, 'b) point list \<Rightarrow> rng
    \<Rightarrow> (('a, 'b) point list \<times> nat list) \<times> rng" where
  "dual_key_gen_loop L 0 secret_key public_key g = ((public_key, secret_key), g)"
| "dual_key_gen_loop L (Suc n) secret_key public_key g =
     (let (x, g') = random_zp L g;
          w = smul L x (ECp (ecp_generator L))
      in dual_key_gen_loop L n (secret_key @ [x]) (public_key @ [w]) g')"

definition dual_key_gen ::
  "('a, 'b, 't) bn254 \<Rightarrow> int \<Rightarrow> rng \<Rightarrow> (('a, 'b) point list \<times> nat list) \<times> rng" where
  "dual_key_gen L ell g = dual_key_gen_loop L (nat ell) [] [] g"

definition dual_sign ::
  "('a, 'b, 't) bn254 \<Rightarrow> nat list \<Rightarrow> ('a, 'b) point list \<Rightarrow> rng
    \<Rightarrow> (error + ('a, 'b) signature) \<times> rng" where
  "dual_sign L secret_key message g =
     (let (y, g') = random_zp L g
      in (err_bind (reduce (padd L) (map (\<lambda>(Xi, mi). smul L Xi mi) (zip secret_key message)))
            (\<lambda>s. let z = smul L y s;
                     y_inv = invmodp L y (curve_r L);
                     y_inv_p = smul L y_inv (ECp2 (ecp2_generator L));
                     y_inv_phat = smul L y_inv (ECp (ecp_generator L))
                 in Inr (z, y_inv_p, y_inv_phat)),
          g'))"

definition dual_verify ::
  "('a, 'b, 't) bn254 \<Rightarrow> ('a, 'b) point list \<Rightarrow> ('a, 'b) point list \<Rightarrow> ('a, 'b) signature
    \<Rightarrow> error + bool" where
  "dual_verify L public_key message signature =
     (case signature of (z, y_inv_p, y_inv_phat) \<Rightarrow>
        err_bind (comprehension (\<lambda>(Xi, mi). e L mi Xi) (zip public_key message)) (\<lambda>es.
        err_bind (reduce (\<lambda>a b. Inr (fp12_mul L a b)) es) (\<lambda>q1.
        err_bind (e L z y_inv_phat) (\<lambda>t.
          if q1 = t
          then err_bind (e L y_inv_p (ECp (ecp_generator L))) (\<lambda>u.
               err_bind (e L (ECp2 (ecp2_generator L)) y_inv_phat) (\<lambda>v. Inr (u = v)))
          else Inr False))))"

text \<open>The dual \<open>hash_message\<close> is a fresh sample times the generator of the second group.\<close>

definition dual_hash_message ::
  "('a, 'b, 't) bn254 \<Rightarrow> string \<Rightarrow> rng \<Rightarrow> ('a, 'b) point \<times> rng" where
  "dual_hash_message L message g =
     (let (k, g') = big_rand (curve_r L) g
      in (smul L k (ECp2 (ecp2_generator L)), g'))"

subsection \<open>Method dispatch\<close>

text \<open>
  \<open>issuer_scheme.sign\<close> and its siblings call the method of the object's class.
\<close>

datatype scheme = MercurialSignatureScheme | MercurialSignatureDual

fun scheme_key_gen ::
  "scheme \<Rightarrow> ('a, 'b, 't) bn254 \<Rightarrow> int \<Rightarrow> rng \<Rightarrow> (('a, 'b) point list \<times> nat list) \<times> rng" where
  "scheme_key_gen MercurialSignatureScheme = key_gen"
| "scheme_key_gen MercurialSignatureDual = dual_key_gen"

fun scheme_sign ::
  "scheme \<Rightarrow> ('a, 'b, 't) bn254 \<Rightarrow> nat list \<Rightarrow> ('a, 'b) point list \<Rightarrow> rng
    \<Rightarrow> (error + ('a, 'b) signature) \<times> rng" where
  "scheme_sign MercurialSignatureScheme = sign"
| "scheme_sign MercurialSignatureDual = dual_sign"

fun scheme_verify ::
  "scheme \<Rightarrow> ('a, 'b, 't) bn254 \<Rightarrow> ('a, 'b) point list \<Rightarrow> ('a, 'b) point list
    \<Rightarrow> ('a, 'b) signature \<Rightarrow> error + bool" where
  "scheme_verify MercurialSignatureScheme = verify"
| "scheme_verify MercurialSignatureDual = dual_verify"

section \<open>delegatable\_anon\_cred\_scheme.py\<close>

type_synonym ('a, 'b) cred_chain = "('a, 'b) point list list \<times> ('a, 'b) signature list"

text \<open>
  The attribute \<open>initial_nym\<close> holds a Python tuple whose second entry is \<open>None\<close>, so the
  attribute's value is a Python object of one of three shapes.
\<close>

datatype ('a, 'b) pyobj =
  PointList "('a, 'b) point list"
| NoneObj
| Tuple "('a, 'b) pyobj" "('a, 'b) pyobj"

record ('a, 'b) dac =
  even_issuer_scheme :: scheme
  odd_issuer_scheme :: scheme
  key_length :: int
  initial_pk :: "('a, 'b) point list"
  initial_sk :: "nat list"
  initial_nym :: "('a, 'b) pyobj"

text \<open>\<open>__init__\<close>\<close>

definition DelegatableAnonCredScheme ::
  "('a, 'b, 't) bn254 \<Rightarrow> int \<Rightarrow> rng \<Rightarrow> ('a, 'b) dac \<times> rng" where
  "DelegatableAnonCredScheme L ell g =
     (let even = MercurialSignatureDual;
          odd = MercurialSignatureScheme;
          ((pk, sk), g') = scheme_key_gen even L ell g
      in (\<lparr>even_issuer_scheme = even, odd_issuer_scheme = odd, key_length = ell,
           initial_pk = pk, initial_sk = sk,
           initial_nym = Tuple (PointList pk) NoneObj\<rparr>, g'))"

text \<open>The method \<open>key_gen\<close> of the class \<open>DelegatableAnonCredScheme\<close>\<close>

definition dac_key_gen ::
  "('a, 'b, 't) bn254 \<Rightarrow> ('a, 'b) dac \<Rightarrow> rng
    \<Rightarrow> ((('a, 'b) point list \<times> nat list) \<times> (('a, 'b) point list \<times> nat list)) \<times> rng" where
  "dac_key_gen L D g =
     (let ((even_pk, even_sk), g1) = scheme_key_gen (even_issuer_scheme D) L (key_length D) g;
          ((odd_pk, odd_sk), g2) = scheme_key_gen (odd_issuer_scheme D) L (key_length D) g1
      in (((even_pk, even_sk), (odd_pk, odd_sk)), g2))"

definition nym_gen ::
  "('a, 'b, 't) bn254 \<Rightarrow> ('a, 'b) dac \<Rightarrow> ('a, 'b) point list \<Rightarrow> nat list
    \<Rightarrow> ('a, 'b) point list \<Rightarrow> nat list \<Rightarrow> rng
    \<Rightarrow> ((('a, 'b) point list \<times> nat list) \<times> (('a, 'b) point list \<times> nat list)) \<times> rng" where
  "nym_gen L D even_pk even_sk odd_pk odd_sk g =
     (let (even_rho, g1) = random_zp L g;
          even_sk' = convert_secret_key even_sk even_rho;
          even_nym = convert_public_key L even_pk even_rho;
          (odd_rho, g2) = random_zp L g1;
          odd_sk' = convert_secret_key odd_sk odd_rho;
          odd_nym = convert_public_key L odd_pk odd_rho
      in (((even_nym, even_sk'), (odd_nym, odd_sk')), g2))"

definition issue_first ::
  "('a, 'b, 't) bn254 \<Rightarrow> ('a, 'b) dac \<Rightarrow> ('a, 'b) point list \<Rightarrow> rng
    \<Rightarrow> (error + ('a, 'b) cred_chain) \<times> rng" where
  "issue_first L D nym g =
     (let (r, g') = scheme_sign (even_issuer_scheme D) L (initial_sk D) nym g
      in (err_bind r (\<lambda>sig1. Inr ([nym], [sig1])), g'))"

text \<open>
  The loop of \<open>issue_next\<close> over \<open>range(len(nym_list) - 1)\<close>: the recursion runs over
  the list of the indices. Its state is the two lists, written at index \<open>i + 1\<close>, the
  current \<open>rho\<close> and the random source. A failed \<open>assert\<close> raises \<open>AssertionError\<close>.
\<close>

fun issue_next_loop ::
  "('a, 'b, 't) bn254 \<Rightarrow> ('a, 'b) dac \<Rightarrow> nat list \<Rightarrow> ('a, 'b) point list list
    \<Rightarrow> ('a, 'b) signature list \<Rightarrow> nat \<Rightarrow> rng
    \<Rightarrow> (error + (('a, 'b) point list list \<times> ('a, 'b) signature list \<times> nat)) \<times> rng" where
  "issue_next_loop L D [] nym_list sig_list rho g = (Inr (nym_list, sig_list, rho), g)"
| "issue_next_loop L D (i # is) nym_list sig_list rho g =
     (if length nym_list \<le> i + 1 \<or> length sig_list \<le> i + 1 then (Inl IndexError, g)
      else
        let issuer_scheme =
              (if i mod 2 = 0 then odd_issuer_scheme D else even_issuer_scheme D);
            (sig_tilde, g1) =
              convert_signature L (nym_list ! i) (nym_list ! (i + 1)) (sig_list ! (i + 1)) rho g;
            (rho', g2) = random_zp L g1;
            ((nym', sig'), g3) =
              change_representation L (nym_list ! i) (nym_list ! (i + 1)) sig_tilde rho' g2;
            nym_list' = nym_list[i + 1 := nym'];
            sig_list' = sig_list[i + 1 := sig']
        in case scheme_verify issuer_scheme L
                  (nym_list' ! i) (nym_list' ! (i + 1)) (sig_list' ! (i + 1)) of
             Inl err \<Rightarrow> (Inl err, g3)
           | Inr ok \<Rightarrow>
               if ok then issue_next_loop L D is nym_list' sig_list' rho' g3
               else (Inl AssertionError, g3))"

text \<open>
  \<open>issue_next\<close> writes into the two lists it is given and returns them; the model
  returns the lists after the writes. \<open>nym_list[-2]\<close>, \<open>nym_list[-1]\<close> and \<open>sig_list[-1]\<close>
  are read after the \<open>append\<close>, when both lists have at least two entries.
\<close>

definition issue_next ::
  "('a, 'b, 't) bn254 \<Rightarrow> ('a, 'b) dac \<Rightarrow> ('a, 'b) cred_chain \<Rightarrow> ('a, 'b) point list
    \<Rightarrow> nat list \<Rightarrow> rng \<Rightarrow> (error + ('a, 'b) cred_chain) \<times> rng" where
  "issue_next L D cred_chain new_nym sk g =
     (case cred_chain of (nym_list, sig_list) \<Rightarrow>
        if length nym_list \<noteq> length sig_list then (Inl AssertionError, g)
        else
          (let (rho, g1) = random_zp L g
           in if nym_list = [] then (Inl IndexError, g1)
              else
                (let ((nym0, sig0), g2) =
                       change_representation L (initial_pk D) (nym_list ! 0) (sig_list ! 0) rho g1;
                     nym_list1 = nym_list[0 := nym0];
                     sig_list1 = sig_list[0 := sig0]
                 in (case scheme_verify (even_issuer_scheme D) L
                            (initial_pk D) (nym_list1 ! 0) (sig_list1 ! 0) of
                       Inl err \<Rightarrow> (Inl err, g2)
                     | Inr ok0 \<Rightarrow>
                         if \<not> ok0 then (Inl AssertionError, g2)
                         else
                           (case issue_next_loop L D [0..<length nym_list1 - 1]
                                   nym_list1 sig_list1 rho g2 of
                              (Inl err, g3) \<Rightarrow> (Inl err, g3)
                            | (Inr (nym_list2, sig_list2, rho2), g3) \<Rightarrow>
                                (let nym_list3 = nym_list2 @ [new_nym];
                                     issuer_scheme =
                                       (if length nym_list3 mod 2 = 0 then odd_issuer_scheme D
                                        else even_issuer_scheme D);
                                     sk' = convert_secret_key sk rho2;
                                     (r, g4) = scheme_sign issuer_scheme L sk' new_nym g3
                                 in (case r of
                                       Inl err \<Rightarrow> (Inl err, g4)
                                     | Inr s \<Rightarrow>
                                         (let sig_list3 = sig_list2 @ [s]
                                          in (case scheme_verify issuer_scheme L
                                                     (nym_list3 ! (length nym_list3 - 2))
                                                     (last nym_list3) (last sig_list3) of
                                                Inl err \<Rightarrow> (Inl err, g4)
                                              | Inr ok \<Rightarrow>
                                                  if ok then (Inr (nym_list3, sig_list3), g4)
                                                  else (Inl AssertionError, g4))))))))))"

fun verify_chain_loop ::
  "('a, 'b, 't) bn254 \<Rightarrow> ('a, 'b) dac \<Rightarrow> nat list \<Rightarrow> ('a, 'b) point list list
    \<Rightarrow> ('a, 'b) signature list \<Rightarrow> error + bool" where
  "verify_chain_loop L D [] nym_list sig_list = Inr True"
| "verify_chain_loop L D (i # is) nym_list sig_list =
     (if length nym_list \<le> i + 1 \<or> length sig_list \<le> i + 1 then Inl IndexError
      else
        let issuer_scheme =
              (if i mod 2 = 0 then odd_issuer_scheme D else even_issuer_scheme D)
        in err_bind
             (scheme_verify issuer_scheme L (nym_list ! i) (nym_list ! (i + 1)) (sig_list ! (i + 1)))
             (\<lambda>ok. if \<not> ok then Inr False else verify_chain_loop L D is nym_list sig_list))"

definition verify_chain ::
  "('a, 'b, 't) bn254 \<Rightarrow> ('a, 'b) dac \<Rightarrow> ('a, 'b) cred_chain \<Rightarrow> error + bool" where
  "verify_chain L D cred_chain =
     (case cred_chain of (nym_list, sig_list) \<Rightarrow>
        if length nym_list \<noteq> length sig_list then Inl AssertionError
        else if nym_list = [] then Inl IndexError
        else err_bind
               (scheme_verify (even_issuer_scheme D) L (initial_pk D) (nym_list ! 0) (sig_list ! 0))
               (\<lambda>ok. if \<not> ok then Inr False
                     else verify_chain_loop L D [0..<length nym_list - 1] nym_list sig_list))"

section \<open>Notions the properties are stated with\<close>

text \<open>
  The generator a scheme's public keys are multiples of, the public key that belongs to a
  secret key (the key-pair invariant of the data model), and the group a scheme's messages
  live in.
\<close>

fun key_base :: "scheme \<Rightarrow> ('a, 'b, 't) bn254 \<Rightarrow> ('a, 'b) point" where
  "key_base MercurialSignatureScheme L = ECp2 (ecp2_generator L)"
| "key_base MercurialSignatureDual L = ECp (ecp_generator L)"

definition keys_of :: "('a, 'b, 't) bn254 \<Rightarrow> scheme \<Rightarrow> nat list \<Rightarrow> ('a, 'b) point list" where
  "keys_of L sch sk = map (\<lambda>x. smul L x (key_base sch L)) sk"

fun in_message_group :: "scheme \<Rightarrow> ('a, 'b) point \<Rightarrow> bool" where
  "in_message_group MercurialSignatureScheme (ECp P) = True"
| "in_message_group MercurialSignatureScheme (ECp2 Q) = False"
| "in_message_group MercurialSignatureDual (ECp P) = False"
| "in_message_group MercurialSignatureDual (ECp2 Q) = True"

text \<open>
  The neutral point of either group, as a tagged value; a list without a neutral point;
  and the condition under which \<open>sign\<close> puts a point that is not neutral into the first
  entry of the signature: the sum of the products \<open>xi * mi\<close> that \<open>sign\<close> reduces is
  defined and is not neutral.
\<close>

fun neutral :: "('a, 'b, 't) bn254 \<Rightarrow> ('a, 'b) point \<Rightarrow> bool" where
  "neutral L (ECp P) = (P = ecp_inf L)"
| "neutral L (ECp2 Q) = (Q = ecp2_inf L)"

definition no_neutral :: "('a, 'b, 't) bn254 \<Rightarrow> ('a, 'b) point list \<Rightarrow> bool" where
  "no_neutral L Ps = list_all (\<lambda>P. \<not> neutral L P) Ps"

definition sum_not_neutral ::
  "('a, 'b, 't) bn254 \<Rightarrow> nat list \<Rightarrow> ('a, 'b) point list \<Rightarrow> bool" where
  "sum_not_neutral L secret_key message =
     (case reduce (padd L) (map (\<lambda>(xi, mi). smul L xi mi) (zip secret_key message)) of
        Inl err \<Rightarrow> False
      | Inr s \<Rightarrow> \<not> neutral L s)"

text \<open>
  A small library that meets the contract, for concrete evaluations: both source groups
  and the target are the integers modulo 7 (the target written additively), the generators
  are 1, the pairing is multiplication, and \<open>invmodp\<close> looks the inverse up in a table.
\<close>

definition toy :: "(7, 7, 7) bn254" where
  "toy =
     \<lparr>curve_r = 7, curve_x = 1, curve_EFS = 1,
      ecp_inf = 0, ecp2_inf = 0, fp12_one = 0,
      ecp_generator = 1, ecp2_generator = 1,
      ecp_add = (\<lambda>P Q. P + Q), ecp2_add = (\<lambda>P Q. P + Q),
      ecp_mul = (\<lambda>k P. of_nat k * P), ecp2_mul = (\<lambda>k P. of_nat k * P),
      fp12_mul = (\<lambda>s t. s + t), pair_e = (\<lambda>Q P. Q * P),
      invmodp = (\<lambda>s m. [0, 1, 4, 5, 2, 3, 6] ! (s mod m)),
      from_bytes = (\<lambda>bs. foldl (\<lambda>a b. 256 * a + b) 0 bs),
      ecp_set = (\<lambda>x. if x mod 3 = 0 then Some (of_nat x) else None),
      shake_256 = (\<lambda>s n. replicate n (length s))\<rparr>"

text \<open>
  The scheme of the issuer at index \<open>i\<close> of a chain, as both loops select it, and the
  check both loops make of the link from index \<open>i\<close> to index \<open>i + 1\<close>.
\<close>

definition issuer_scheme_of :: "('a, 'b) dac \<Rightarrow> nat \<Rightarrow> scheme" where
  "issuer_scheme_of D i = (if i mod 2 = 0 then odd_issuer_scheme D else even_issuer_scheme D)"

definition link_ok ::
  "('a, 'b, 't) bn254 \<Rightarrow> ('a, 'b) dac \<Rightarrow> ('a, 'b) point list list \<Rightarrow> ('a, 'b) signature list
    \<Rightarrow> nat \<Rightarrow> bool" where
  "link_ok L D nym_list sig_list i \<longleftrightarrow>
     scheme_verify (issuer_scheme_of D i) L (nym_list ! i) (nym_list ! (i + 1)) (sig_list ! (i + 1))
       = Inr True"

text \<open>
  A legal sequence of issuances, as scenario 1 of the specification runs it. A user joining the chain calls \<open>key_gen\<close> and passes the two key
  pairs to \<open>nym_gen\<close>. User 1 is issued its odd pseudonym by \<open>issue_first\<close>; every
  later user is issued, by \<open>issue_next\<close>, its even or odd pseudonym in alternation, under
  the secret key \<open>nym_gen\<close> returned for the pseudonym that is last in the chain.
  \<open>delegate k\<close> is \<open>issue_first\<close> followed by \<open>k\<close> calls of \<open>issue_next\<close>; it
  returns the chain and the secret key of its last pseudonym.
\<close>

definition new_user ::
  "('a, 'b, 't) bn254 \<Rightarrow> ('a, 'b) dac \<Rightarrow> rng
    \<Rightarrow> ((('a, 'b) point list \<times> nat list) \<times> (('a, 'b) point list \<times> nat list)) \<times> rng" where
  "new_user L D g =
     (let (((even_pk, even_sk), (odd_pk, odd_sk)), g1) = dac_key_gen L D g
      in nym_gen L D even_pk even_sk odd_pk odd_sk g1)"

fun delegate ::
  "('a, 'b, 't) bn254 \<Rightarrow> ('a, 'b) dac \<Rightarrow> nat \<Rightarrow> rng
    \<Rightarrow> (error + (('a, 'b) cred_chain \<times> nat list)) \<times> rng" where
  "delegate L D 0 g =
     (let (((nym_even, sk_even), (nym_odd, sk_odd)), g1) = new_user L D g;
          (r, g2) = issue_first L D nym_odd g1
      in (err_bind r (\<lambda>cred_chain. Inr (cred_chain, sk_odd)), g2))"
| "delegate L D (Suc k) g =
     (case delegate L D k g of
        (Inl err, g1) \<Rightarrow> (Inl err, g1)
      | (Inr (cred_chain, sk), g1) \<Rightarrow>
          let (((nym_even, sk_even), (nym_odd, sk_odd)), g2) = new_user L D g1;
              (new_nym, new_sk) = (if k mod 2 = 0 then (nym_even, sk_even) else (nym_odd, sk_odd));
              (r, g3) = issue_next L D cred_chain new_nym sk g2
          in (err_bind r (\<lambda>cred_chain'. Inr (cred_chain', new_sk)), g3))"

text \<open>
  In a legal sequence, the condition \<open>sum_not_neutral\<close> at every issuance: for the root's
  secret key and the first pseudonym, and for each later issuer's secret key and the
  pseudonym it signs.
\<close>

fun signed_sums_ok :: "('a, 'b, 't) bn254 \<Rightarrow> ('a, 'b) dac \<Rightarrow> nat \<Rightarrow> rng \<Rightarrow> bool" where
  "signed_sums_ok L D 0 g =
     (let (((nym_even, sk_even), (nym_odd, sk_odd)), g1) = new_user L D g
      in sum_not_neutral L (initial_sk D) nym_odd)"
| "signed_sums_ok L D (Suc k) g =
     (signed_sums_ok L D k g \<and>
      (case delegate L D k g of
         (Inl err, g1) \<Rightarrow> False
       | (Inr (cred_chain, sk), g1) \<Rightarrow>
           let (((nym_even, sk_even), (nym_odd, sk_odd)), g2) = new_user L D g1;
               (new_nym, new_sk) = (if k mod 2 = 0 then (nym_even, sk_even) else (nym_odd, sk_odd))
           in sum_not_neutral L sk new_nym))"

section \<open>Auxiliary definitions of the proofs\<close>

text \<open>
  The pairing completed by the unit at the neutral points, powers in the target, the folds
  that \<open>reduce\<close> computes, the tagging of a typed pair, and the exchange of the two source
  groups, under which the dual scheme is the primary scheme.
\<close>

definition tpair :: "('a, 'b, 't) bn254 \<Rightarrow> 'b \<Rightarrow> 'a \<Rightarrow> 't" where
  "tpair L Q P = (if Q = ecp2_inf L \<or> P = ecp_inf L then fp12_one L else pair_e L Q P)"

fun fp12_pow :: "('a, 'b, 't) bn254 \<Rightarrow> 't \<Rightarrow> nat \<Rightarrow> 't" where
  "fp12_pow L t 0 = fp12_one L"
| "fp12_pow L t (Suc n) = fp12_mul L t (fp12_pow L t n)"

fun lprod :: "('a, 'b, 't) bn254 \<Rightarrow> 't list \<Rightarrow> 't" where
  "lprod L [] = fp12_one L"
| "lprod L (t # ts) = foldl (fp12_mul L) t ts"

definition tagp :: "'b \<times> 'a \<Rightarrow> ('a, 'b) point \<times> ('a, 'b) point" where
  "tagp q = (ECp2 (fst q), ECp (snd q))"

fun lsum :: "('a, 'b, 't) bn254 \<Rightarrow> 'a list \<Rightarrow> 'a" where
  "lsum L [] = ecp_inf L"
| "lsum L (N # Ns) = foldl (ecp_add L) N Ns"

definition swap_lib :: "('a, 'b, 't) bn254 \<Rightarrow> ('b, 'a, 't) bn254" where
  "swap_lib L =
     \<lparr>curve_r = curve_r L, curve_x = curve_x L, curve_EFS = curve_EFS L,
      ecp_inf = ecp2_inf L, ecp2_inf = ecp_inf L, fp12_one = fp12_one L,
      ecp_generator = ecp2_generator L, ecp2_generator = ecp_generator L,
      ecp_add = ecp2_add L, ecp2_add = ecp_add L,
      ecp_mul = ecp2_mul L, ecp2_mul = ecp_mul L,
      fp12_mul = fp12_mul L, pair_e = (\<lambda>P Q. pair_e L Q P),
      invmodp = invmodp L, from_bytes = from_bytes L,
      ecp_set = (\<lambda>_. None), shake_256 = shake_256 L\<rparr>"

fun swp :: "('a, 'b) point \<Rightarrow> ('b, 'a) point" where
  "swp (ECp P) = ECp2 P"
| "swp (ECp2 Q) = ECp Q"

definition swp_sig :: "('a, 'b) signature \<Rightarrow> ('b, 'a) signature" where
  "swp_sig sg = (case sg of (z, y, yh) \<Rightarrow> (swp z, swp y, swp yh))"

section \<open>Algebra of the pairing library\<close>

lemma err_bind_simps [simp]:
  "err_bind (Inl err) f = Inl err"
  "err_bind (Inr v) f = f v"
  by (simp_all add: err_bind_def)

subsection \<open>The contract, law by law\<close>

lemma ecp_laws:
  assumes "bn254_ok L"
  shows "ecp_add L (ecp_add L P Q) R = ecp_add L P (ecp_add L Q R)"
    and "ecp_add L P Q = ecp_add L Q P"
    and "ecp_add L (ecp_inf L) P = P"
    and "ecp_mul L 0 P = ecp_inf L"
    and "ecp_mul L (Suc n) P = ecp_add L P (ecp_mul L n P)"
    and "ecp_mul L (curve_r L) P = ecp_inf L"
  using assms unfolding bn254_ok_def ecp_group_def by blast+

lemma ecp_mul_ne:
  assumes "bn254_ok L" and "P \<noteq> ecp_inf L" and "k mod curve_r L \<noteq> 0"
  shows "ecp_mul L k P \<noteq> ecp_inf L"
  using assms unfolding bn254_ok_def ecp_group_def by blast

lemma ecp2_laws:
  assumes "bn254_ok L"
  shows "ecp2_add L (ecp2_add L P Q) R = ecp2_add L P (ecp2_add L Q R)"
    and "ecp2_add L P Q = ecp2_add L Q P"
    and "ecp2_add L (ecp2_inf L) P = P"
    and "ecp2_mul L 0 P = ecp2_inf L"
    and "ecp2_mul L (Suc n) P = ecp2_add L P (ecp2_mul L n P)"
    and "ecp2_mul L (curve_r L) P = ecp2_inf L"
  using assms unfolding bn254_ok_def ecp2_group_def by blast+

lemma ecp2_mul_ne:
  assumes "bn254_ok L" and "P \<noteq> ecp2_inf L" and "k mod curve_r L \<noteq> 0"
  shows "ecp2_mul L k P \<noteq> ecp2_inf L"
  using assms unfolding bn254_ok_def ecp2_group_def by blast

lemma generator_laws:
  assumes "bn254_ok L"
  shows "ecp_generator L \<noteq> ecp_inf L" and "ecp2_generator L \<noteq> ecp2_inf L"
  using assms unfolding bn254_ok_def generators_ok_def by blast+

lemma fp12_laws:
  assumes "bn254_ok L"
  shows "fp12_mul L (fp12_mul L s t) u = fp12_mul L s (fp12_mul L t u)"
    and "fp12_mul L s t = fp12_mul L t s"
    and "fp12_mul L (fp12_one L) t = t"
  using assms unfolding bn254_ok_def fp12_monoid_def by blast+

lemma bilinear_laws:
  assumes "bn254_ok L"
  shows "Q \<noteq> ecp2_inf L \<Longrightarrow> Q' \<noteq> ecp2_inf L \<Longrightarrow> P \<noteq> ecp_inf L \<Longrightarrow>
         ecp2_add L Q Q' = ecp2_inf L \<Longrightarrow>
         fp12_mul L (pair_e L Q P) (pair_e L Q' P) = fp12_one L"
    and "Q \<noteq> ecp2_inf L \<Longrightarrow> Q' \<noteq> ecp2_inf L \<Longrightarrow> P \<noteq> ecp_inf L \<Longrightarrow>
         ecp2_add L Q Q' \<noteq> ecp2_inf L \<Longrightarrow>
         pair_e L (ecp2_add L Q Q') P = fp12_mul L (pair_e L Q P) (pair_e L Q' P)"
    and "Q \<noteq> ecp2_inf L \<Longrightarrow> P \<noteq> ecp_inf L \<Longrightarrow> P' \<noteq> ecp_inf L \<Longrightarrow>
         ecp_add L P P' = ecp_inf L \<Longrightarrow>
         fp12_mul L (pair_e L Q P) (pair_e L Q P') = fp12_one L"
    and "Q \<noteq> ecp2_inf L \<Longrightarrow> P \<noteq> ecp_inf L \<Longrightarrow> P' \<noteq> ecp_inf L \<Longrightarrow>
         ecp_add L P P' \<noteq> ecp_inf L \<Longrightarrow>
         pair_e L Q (ecp_add L P P') = fp12_mul L (pair_e L Q P) (pair_e L Q P')"
proof -
  have b: "bilinear L" using assms by (simp add: bn254_ok_def)
  show "Q \<noteq> ecp2_inf L \<Longrightarrow> Q' \<noteq> ecp2_inf L \<Longrightarrow> P \<noteq> ecp_inf L \<Longrightarrow>
         ecp2_add L Q Q' = ecp2_inf L \<Longrightarrow>
         fp12_mul L (pair_e L Q P) (pair_e L Q' P) = fp12_one L"
    using b[unfolded bilinear_def, THEN conjunct1, rule_format, of Q Q' P] by simp
  show "Q \<noteq> ecp2_inf L \<Longrightarrow> Q' \<noteq> ecp2_inf L \<Longrightarrow> P \<noteq> ecp_inf L \<Longrightarrow>
         ecp2_add L Q Q' \<noteq> ecp2_inf L \<Longrightarrow>
         pair_e L (ecp2_add L Q Q') P = fp12_mul L (pair_e L Q P) (pair_e L Q' P)"
    using b[unfolded bilinear_def, THEN conjunct1, rule_format, of Q Q' P] by simp
  show "Q \<noteq> ecp2_inf L \<Longrightarrow> P \<noteq> ecp_inf L \<Longrightarrow> P' \<noteq> ecp_inf L \<Longrightarrow>
         ecp_add L P P' = ecp_inf L \<Longrightarrow>
         fp12_mul L (pair_e L Q P) (pair_e L Q P') = fp12_one L"
    using b[unfolded bilinear_def, THEN conjunct2, rule_format, of Q P P'] by simp
  show "Q \<noteq> ecp2_inf L \<Longrightarrow> P \<noteq> ecp_inf L \<Longrightarrow> P' \<noteq> ecp_inf L \<Longrightarrow>
         ecp_add L P P' \<noteq> ecp_inf L \<Longrightarrow>
         pair_e L Q (ecp_add L P P') = fp12_mul L (pair_e L Q P) (pair_e L Q P')"
    using b[unfolded bilinear_def, THEN conjunct2, rule_format, of Q P P'] by simp
qed

lemma scalar_laws:
  assumes "bn254_ok L"
  shows "1 < curve_r L"
    and "s mod curve_r L \<noteq> 0 \<Longrightarrow> (invmodp L s (curve_r L) * s) mod curve_r L = 1"
  using assms unfolding bn254_ok_def scalar_field_def by blast+

lemma fp12_mul_one_right: "bn254_ok L \<Longrightarrow> fp12_mul L t (fp12_one L) = t"
  by (metis fp12_laws(2,3))

lemma fp12_mul_left_commute:
  "bn254_ok L \<Longrightarrow> fp12_mul L s (fp12_mul L t u) = fp12_mul L t (fp12_mul L s u)"
  by (metis fp12_laws(1,2))

lemma ecp_add_left_commute:
  "bn254_ok L \<Longrightarrow> ecp_add L P (ecp_add L Q R) = ecp_add L Q (ecp_add L P R)"
  by (metis ecp_laws(1,2))

lemma ecp2_add_left_commute:
  "bn254_ok L \<Longrightarrow> ecp2_add L P (ecp2_add L Q R) = ecp2_add L Q (ecp2_add L P R)"
  by (metis ecp2_laws(1,2))

subsection \<open>The pairing completed by the unit\<close>

text \<open>
  Where \<open>pair.e\<close> returns a value, \<open>tpair\<close> is that value; at a neutral point it is the
  unit of the target. The completed pairing is additive in each argument without any
  side condition, which is what the calculations below use.
\<close>

lemma tpair_eq: "Q \<noteq> ecp2_inf L \<Longrightarrow> P \<noteq> ecp_inf L \<Longrightarrow> tpair L Q P = pair_e L Q P"
  by (simp add: tpair_def)

lemma e_tpair:
  "Q \<noteq> ecp2_inf L \<Longrightarrow> P \<noteq> ecp_inf L \<Longrightarrow> e L (ECp2 Q) (ECp P) = Inr (tpair L Q P)"
  by (simp add: tpair_def)

lemma pair_laws:
  assumes ok: "bn254_ok L"
  shows "tpair L (ecp2_add L Q Q') P = fp12_mul L (tpair L Q P) (tpair L Q' P)"
    and "tpair L Q (ecp_add L P P') = fp12_mul L (tpair L Q P) (tpair L Q P')"
    and "tpair L (ecp2_inf L) P = fp12_one L"
    and "tpair L Q (ecp_inf L) = fp12_one L"
proof -
  show 3: "\<And>P. tpair L (ecp2_inf L) P = fp12_one L" by (simp add: tpair_def)
  show 4: "\<And>Q. tpair L Q (ecp_inf L) = fp12_one L" by (simp add: tpair_def)
  show "tpair L (ecp2_add L Q Q') P = fp12_mul L (tpair L Q P) (tpair L Q' P)"
  proof (cases "P = ecp_inf L \<or> Q = ecp2_inf L \<or> Q' = ecp2_inf L")
    case True
    then consider "P = ecp_inf L" | "Q = ecp2_inf L" | "Q' = ecp2_inf L" by blast
    then show ?thesis
    proof cases
      case 1
      then show ?thesis using ok by (simp add: 4 fp12_laws(3))
    next
      case 2
      then show ?thesis using ok by (simp add: 3 fp12_laws(3) ecp2_laws(3))
    next
      case 3
      have "ecp2_add L Q (ecp2_inf L) = Q" using ok by (metis ecp2_laws(2,3))
      moreover have "fp12_mul L (tpair L Q P) (fp12_one L) = tpair L Q P"
        using ok by (metis fp12_laws(2,3))
      ultimately show ?thesis using 3 by (simp add: \<open>\<And>P. tpair L (ecp2_inf L) P = fp12_one L\<close>)
    qed
  next
    case False
    then have n: "Q \<noteq> ecp2_inf L" "Q' \<noteq> ecp2_inf L" "P \<noteq> ecp_inf L" by simp_all
    show ?thesis
    proof (cases "ecp2_add L Q Q' = ecp2_inf L")
      case True
      then show ?thesis
        using bilinear_laws(1)[OF ok n True] n by (simp add: tpair_def)
    next
      case False
      then show ?thesis
        using bilinear_laws(2)[OF ok n False] n by (simp add: tpair_def)
    qed
  qed
  show "tpair L Q (ecp_add L P P') = fp12_mul L (tpair L Q P) (tpair L Q P')"
  proof (cases "Q = ecp2_inf L \<or> P = ecp_inf L \<or> P' = ecp_inf L")
    case True
    then consider "Q = ecp2_inf L" | "P = ecp_inf L" | "P' = ecp_inf L" by blast
    then show ?thesis
    proof cases
      case 1
      then show ?thesis using ok by (simp add: 3 fp12_laws(3))
    next
      case 2
      then show ?thesis using ok by (simp add: 4 fp12_laws(3) ecp_laws(3))
    next
      case 3
      have "ecp_add L P (ecp_inf L) = P" using ok by (metis ecp_laws(2,3))
      moreover have "fp12_mul L (tpair L Q P) (fp12_one L) = tpair L Q P"
        using ok by (metis fp12_laws(2,3))
      ultimately show ?thesis using 3 by (simp add: \<open>\<And>Q. tpair L Q (ecp_inf L) = fp12_one L\<close>)
    qed
  next
    case False
    then have n: "Q \<noteq> ecp2_inf L" "P \<noteq> ecp_inf L" "P' \<noteq> ecp_inf L" by simp_all
    show ?thesis
    proof (cases "ecp_add L P P' = ecp_inf L")
      case True
      then show ?thesis
        using bilinear_laws(3)[OF ok n True] n by (simp add: tpair_def)
    next
      case False
      then show ?thesis
        using bilinear_laws(4)[OF ok n False] n by (simp add: tpair_def)
    qed
  qed
qed

subsection \<open>Powers in the target and the pairing of multiples\<close>

text \<open>
  A multiple in either argument of the pairing is a power of the pairing, and the
  \<open>curve.r\<close>-th power of a pairing is the unit, so exponents count modulo \<open>curve.r\<close>.
\<close>

lemma fp12_pow_one: "bn254_ok L \<Longrightarrow> fp12_pow L (fp12_one L) n = fp12_one L"
  by (induction n) (simp_all add: fp12_laws(3))

lemma fp12_pow_1: "bn254_ok L \<Longrightarrow> fp12_pow L t (Suc 0) = t"
  by (simp add: fp12_mul_one_right)

lemma fp12_pow_add:
  "bn254_ok L \<Longrightarrow> fp12_pow L t (a + b) = fp12_mul L (fp12_pow L t a) (fp12_pow L t b)"
  by (induction a) (simp_all add: fp12_laws(1,3))

lemma fp12_pow_mul_dist:
  "bn254_ok L \<Longrightarrow> fp12_pow L (fp12_mul L s t) n = fp12_mul L (fp12_pow L s n) (fp12_pow L t n)"
proof (induction n)
  case 0
  then show ?case by (simp add: fp12_laws(3))
next
  case (Suc n)
  then show ?case
    by (simp add: fp12_laws(1) fp12_mul_left_commute)
qed

lemma fp12_pow_pow:
  "bn254_ok L \<Longrightarrow> fp12_pow L (fp12_pow L t a) b = fp12_pow L t (a * b)"
proof (induction b)
  case 0
  then show ?case by simp
next
  case (Suc b)
  then show ?case by (simp add: fp12_pow_add)
qed

lemma pair_mul2: "bn254_ok L \<Longrightarrow> tpair L (ecp2_mul L n Q) P = fp12_pow L (tpair L Q P) n"
  by (induction n) (simp_all add: ecp2_laws(4,5) pair_laws(1,3))

lemma pair_mul1: "bn254_ok L \<Longrightarrow> tpair L Q (ecp_mul L n P) = fp12_pow L (tpair L Q P) n"
  by (induction n) (simp_all add: ecp_laws(4,5) pair_laws(2,4))

lemma pair_pow_r: "bn254_ok L \<Longrightarrow> fp12_pow L (tpair L Q P) (curve_r L) = fp12_one L"
  by (metis pair_mul1 ecp_laws(6) pair_laws(4))

lemma pair_pow_mod:
  assumes "bn254_ok L"
  shows "fp12_pow L (tpair L Q P) (a mod curve_r L) = fp12_pow L (tpair L Q P) a"
proof -
  have "fp12_pow L (tpair L Q P) a
      = fp12_pow L (tpair L Q P) (curve_r L * (a div curve_r L) + a mod curve_r L)"
    by simp
  also have "\<dots> = fp12_mul L (fp12_pow L (fp12_pow L (tpair L Q P) (curve_r L)) (a div curve_r L))
                        (fp12_pow L (tpair L Q P) (a mod curve_r L))"
    using assms by (simp only: fp12_pow_add fp12_pow_pow)
  also have "\<dots> = fp12_pow L (tpair L Q P) (a mod curve_r L)"
    using assms by (simp add: pair_pow_r fp12_pow_one fp12_laws(3))
  finally show ?thesis by simp
qed

lemma pair_pow_unit:
  assumes "bn254_ok L" and "(a mod curve_r L) = 1"
  shows "fp12_pow L (tpair L Q P) a = tpair L Q P"
  by (metis assms pair_pow_mod fp12_pow_1 One_nat_def)

lemma ecp_mul_add:
  "bn254_ok L \<Longrightarrow> ecp_mul L (a + b) P = ecp_add L (ecp_mul L a P) (ecp_mul L b P)"
  by (induction a) (simp_all add: ecp_laws(1,3,4,5))

lemma ecp_mul_mul:
  "bn254_ok L \<Longrightarrow> ecp_mul L a (ecp_mul L b P) = ecp_mul L (a * b) P"
  by (induction a) (simp_all add: ecp_laws(4,5) ecp_mul_add)

lemma ecp2_mul_add:
  "bn254_ok L \<Longrightarrow> ecp2_mul L (a + b) P = ecp2_add L (ecp2_mul L a P) (ecp2_mul L b P)"
  by (induction a) (simp_all add: ecp2_laws(1,3,4,5))

lemma ecp2_mul_mul:
  "bn254_ok L \<Longrightarrow> ecp2_mul L a (ecp2_mul L b P) = ecp2_mul L (a * b) P"
  by (induction a) (simp_all add: ecp2_laws(4,5) ecp2_mul_add)

lemma smul_smul: "bn254_ok L \<Longrightarrow> smul L a (smul L b P) = smul L (a * b) P"
  by (cases P) (simp_all add: ecp_mul_mul ecp2_mul_mul)

lemma inverse_nonzero:
  assumes "bn254_ok L" and "(a * b) mod curve_r L = 1"
  shows "a mod curve_r L \<noteq> 0" and "b mod curve_r L \<noteq> 0"
proof -
  show "a mod curve_r L \<noteq> 0"
  proof
    assume "a mod curve_r L = 0"
    then have "curve_r L dvd a * b" by (simp add: mod_eq_0_iff_dvd)
    then have "(a * b) mod curve_r L = 0" by simp
    then show False using assms(2) by simp
  qed
  show "b mod curve_r L \<noteq> 0"
  proof
    assume "b mod curve_r L = 0"
    then have "curve_r L dvd a * b" by (simp add: mod_eq_0_iff_dvd)
    then have "(a * b) mod curve_r L = 0" by simp
    then show False using assms(2) by simp
  qed
qed

lemma one_nonzero: "bn254_ok L \<Longrightarrow> Suc 0 mod curve_r L \<noteq> 0"
  using scalar_laws(1)[of L] by simp

lemma smul_neutral:
  assumes "bn254_ok L" and "\<not> neutral L P" and "k mod curve_r L \<noteq> 0"
  shows "\<not> neutral L (smul L k P)"
  using assms by (cases P) (simp_all add: ecp_mul_ne ecp2_mul_ne)

lemma no_neutral_smul:
  assumes "bn254_ok L" and "no_neutral L Ps" and "k mod curve_r L \<noteq> 0"
  shows "no_neutral L (map (smul L k) Ps)"
  using assms by (simp add: no_neutral_def list_all_iff smul_neutral)

subsection \<open>What the primary verify computes\<close>

text \<open>
  \<open>verify\<close> returns true exactly when the paired entries of key and message are points of
  the second and of the first group, there is at least one pair, the signature has the
  classes of a primary signature, and the two pairing equations hold.
\<close>

lemma reduce_from_fp12:
  "reduce_from (\<lambda>a b. Inr (fp12_mul L a b)) t ts = Inr (foldl (fp12_mul L) t ts)"
  by (induction ts arbitrary: t) simp_all

lemma reduce_fp12:
  "reduce (\<lambda>a b. Inr (fp12_mul L a b)) ts = (if ts = [] then Inl TypeError else Inr (lprod L ts))"
  by (cases ts) (simp_all add: reduce_from_fp12)

lemma e_Inr_iff:
  "e L x m = Inr t \<longleftrightarrow>
     (\<exists>Q P. x = ECp2 Q \<and> m = ECp P \<and> Q \<noteq> ecp2_inf L \<and> P \<noteq> ecp_inf L \<and> t = tpair L Q P)"
  by (cases x; cases m) (auto simp: tpair_def)

lemma comprehension_e_iff:
  "comprehension (\<lambda>(xi, mi). e L xi mi) ps = Inr es \<longleftrightarrow>
     (\<exists>qs. ps = map tagp qs \<and> (\<forall>q\<in>set qs. fst q \<noteq> ecp2_inf L \<and> snd q \<noteq> ecp_inf L) \<and>
           es = map (\<lambda>q. tpair L (fst q) (snd q)) qs)"
proof (induction ps arbitrary: es)
  case Nil
  then show ?case by auto
next
  case (Cons p ps)
  obtain x m where p: "p = (x, m)" by (cases p)
  show ?case
  proof
    assume a: "comprehension (\<lambda>(xi, mi). e L xi mi) (p # ps) = Inr es"
    then obtain t where t: "e L x m = Inr t"
      by (cases "e L x m") (simp_all add: p)
    from a t obtain es' where es': "comprehension (\<lambda>(xi, mi). e L xi mi) ps = Inr es'"
      by (cases "comprehension (\<lambda>(xi, mi). e L xi mi) ps") (simp_all add: p)
    from a t es' have es: "es = t # es'" by (simp add: p)
    from t obtain Q P where xm: "x = ECp2 Q" "m = ECp P" "Q \<noteq> ecp2_inf L" "P \<noteq> ecp_inf L"
        "t = tpair L Q P"
      unfolding e_Inr_iff by blast
    from es' obtain qs where qs: "ps = map tagp qs"
        "\<forall>q\<in>set qs. fst q \<noteq> ecp2_inf L \<and> snd q \<noteq> ecp_inf L"
        "es' = map (\<lambda>q. tpair L (fst q) (snd q)) qs"
      using Cons.IH[of es'] by blast
    show "\<exists>qs. p # ps = map tagp qs \<and>
        (\<forall>q\<in>set qs. fst q \<noteq> ecp2_inf L \<and> snd q \<noteq> ecp_inf L) \<and>
        es = map (\<lambda>q. tpair L (fst q) (snd q)) qs"
    proof (rule exI[of _ "(Q, P) # qs"], intro conjI)
      show "p # ps = map tagp ((Q, P) # qs)"
        using qs(1) xm(1,2) by (simp add: p tagp_def)
      show "\<forall>q\<in>set ((Q, P) # qs). fst q \<noteq> ecp2_inf L \<and> snd q \<noteq> ecp_inf L"
        using qs(2) xm(3,4) by simp
      show "es = map (\<lambda>q. tpair L (fst q) (snd q)) ((Q, P) # qs)"
        using es qs(3) xm(5) by simp
    qed
  next
    assume "\<exists>qs. p # ps = map tagp qs \<and>
        (\<forall>q\<in>set qs. fst q \<noteq> ecp2_inf L \<and> snd q \<noteq> ecp_inf L) \<and>
        es = map (\<lambda>q. tpair L (fst q) (snd q)) qs"
    then obtain qs' where qs': "p # ps = map tagp qs'"
        "\<forall>q\<in>set qs'. fst q \<noteq> ecp2_inf L \<and> snd q \<noteq> ecp_inf L"
        "es = map (\<lambda>q. tpair L (fst q) (snd q)) qs'"
      by (elim exE conjE)
    from qs'(1) obtain q qs where c: "qs' = q # qs" "p = tagp q" "ps = map tagp qs"
      by (auto simp: Cons_eq_map_conv)
    have n: "fst q \<noteq> ecp2_inf L" "snd q \<noteq> ecp_inf L"
      and ns: "\<forall>q\<in>set qs. fst q \<noteq> ecp2_inf L \<and> snd q \<noteq> ecp_inf L"
      using qs'(2) c(1) by simp_all
    have "e L x m = Inr (tpair L (fst q) (snd q))"
      using c(2) n by (simp add: p tagp_def tpair_def)
    moreover have "comprehension (\<lambda>(xi, mi). e L xi mi) ps
                     = Inr (map (\<lambda>q. tpair L (fst q) (snd q)) qs)"
      using Cons.IH[of "map (\<lambda>q. tpair L (fst q) (snd q)) qs"] c(3) ns by blast
    ultimately show "comprehension (\<lambda>(xi, mi). e L xi mi) (p # ps) = Inr es"
      using qs'(3) c(1) by (simp add: p)
  qed
qed

lemma verify_iff:
  "verify L pk M sg = Inr True \<longleftrightarrow>
     (\<exists>qs Z Y Yh. zip pk M = map tagp qs \<and> qs \<noteq> [] \<and> sg = (ECp Z, ECp Y, ECp2 Yh) \<and>
        (\<forall>q\<in>set qs. fst q \<noteq> ecp2_inf L \<and> snd q \<noteq> ecp_inf L) \<and>
        Z \<noteq> ecp_inf L \<and> Y \<noteq> ecp_inf L \<and> Yh \<noteq> ecp2_inf L \<and>
        ecp_generator L \<noteq> ecp_inf L \<and> ecp2_generator L \<noteq> ecp2_inf L \<and>
        lprod L (map (\<lambda>q. tpair L (fst q) (snd q)) qs) = tpair L Yh Z \<and>
        tpair L (ecp2_generator L) Y = tpair L Yh (ecp_generator L))"
  (is "?lhs \<longleftrightarrow> ?rhs")
proof
  assume l: ?lhs
  obtain z y yh where sg: "sg = (z, y, yh)" by (cases sg)
  from l obtain es where es: "comprehension (\<lambda>(xi, mi). e L xi mi) (zip pk M) = Inr es"
    unfolding verify_def sg by (cases "comprehension (\<lambda>(xi, mi). e L xi mi) (zip pk M)") auto
  then obtain qs where qs: "zip pk M = map tagp qs"
      "\<forall>q\<in>set qs. fst q \<noteq> ecp2_inf L \<and> snd q \<noteq> ecp_inf L"
      "es = map (\<lambda>q. tpair L (fst q) (snd q)) qs"
    unfolding comprehension_e_iff by blast
  from l es have ne: "es \<noteq> []"
    unfolding verify_def sg by (auto simp: reduce_fp12 split: if_splits)
  from l es ne obtain t where t: "e L yh z = Inr t"
    unfolding verify_def sg by (cases "e L yh z") (auto simp: reduce_fp12)
  then obtain Yh Z where yz: "yh = ECp2 Yh" "z = ECp Z" "Yh \<noteq> ecp2_inf L" "Z \<noteq> ecp_inf L"
      "t = tpair L Yh Z"
    unfolding e_Inr_iff by blast
  from l es ne t have eq1: "lprod L es = t"
    unfolding verify_def sg by (auto simp: reduce_fp12 split: if_splits)
  from l es ne t eq1 obtain u where u: "e L (ECp2 (ecp2_generator L)) y = Inr u"
    unfolding verify_def sg by (cases "e L (ECp2 (ecp2_generator L)) y") (auto simp: reduce_fp12)
  then obtain Y where y: "y = ECp Y" "ecp2_generator L \<noteq> ecp2_inf L" "Y \<noteq> ecp_inf L"
      "u = tpair L (ecp2_generator L) Y"
    unfolding e_Inr_iff by blast
  from l es ne t eq1 u obtain v where v: "e L yh (ECp (ecp_generator L)) = Inr v"
    unfolding verify_def sg by (cases "e L yh (ECp (ecp_generator L))") (auto simp: reduce_fp12)
  then have g: "ecp_generator L \<noteq> ecp_inf L" and v': "v = tpair L Yh (ecp_generator L)"
    unfolding e_Inr_iff yz(1) by auto
  from l es ne t eq1 u v have "u = v"
    unfolding verify_def sg by (auto simp: reduce_fp12)
  then have eq2: "tpair L (ecp2_generator L) Y = tpair L Yh (ecp_generator L)"
    using y(4) v' by simp
  have "zip pk M = map tagp qs \<and> qs \<noteq> [] \<and> sg = (ECp Z, ECp Y, ECp2 Yh) \<and>
        (\<forall>q\<in>set qs. fst q \<noteq> ecp2_inf L \<and> snd q \<noteq> ecp_inf L) \<and>
        Z \<noteq> ecp_inf L \<and> Y \<noteq> ecp_inf L \<and> Yh \<noteq> ecp2_inf L \<and>
        ecp_generator L \<noteq> ecp_inf L \<and> ecp2_generator L \<noteq> ecp2_inf L \<and>
        lprod L (map (\<lambda>q. tpair L (fst q) (snd q)) qs) = tpair L Yh Z \<and>
        tpair L (ecp2_generator L) Y = tpair L Yh (ecp_generator L)"
    using qs ne yz y g eq1 eq2 sg by simp
  then show ?rhs by blast
next
  assume ?rhs
  then obtain qs Z Y Yh where h: "zip pk M = map tagp qs" "qs \<noteq> []" "sg = (ECp Z, ECp Y, ECp2 Yh)"
        "\<forall>q\<in>set qs. fst q \<noteq> ecp2_inf L \<and> snd q \<noteq> ecp_inf L"
        "Z \<noteq> ecp_inf L" "Y \<noteq> ecp_inf L" "Yh \<noteq> ecp2_inf L"
        "ecp_generator L \<noteq> ecp_inf L" "ecp2_generator L \<noteq> ecp2_inf L"
        "lprod L (map (\<lambda>q. tpair L (fst q) (snd q)) qs) = tpair L Yh Z"
        "tpair L (ecp2_generator L) Y = tpair L Yh (ecp_generator L)"
    by blast
  have "comprehension (\<lambda>(xi, mi). e L xi mi) (zip pk M)
          = Inr (map (\<lambda>q. tpair L (fst q) (snd q)) qs)"
    unfolding comprehension_e_iff using h(1,4) by blast
  then show ?lhs
    unfolding verify_def h(3) using h(2,5-11) by (simp add: reduce_fp12 e_tpair del: e.simps)
qed

lemma verifyI:
  assumes "zip pk M = map tagp qs" and "qs \<noteq> []"
    and "\<forall>q\<in>set qs. fst q \<noteq> ecp2_inf L \<and> snd q \<noteq> ecp_inf L"
    and "Z \<noteq> ecp_inf L" and "Y \<noteq> ecp_inf L" and "Yh \<noteq> ecp2_inf L"
    and "ecp_generator L \<noteq> ecp_inf L" and "ecp2_generator L \<noteq> ecp2_inf L"
    and "lprod L (map (\<lambda>q. tpair L (fst q) (snd q)) qs) = tpair L Yh Z"
    and "tpair L (ecp2_generator L) Y = tpair L Yh (ecp_generator L)"
  shows "verify L pk M (ECp Z, ECp Y, ECp2 Yh) = Inr True"
  unfolding verify_iff using assms by blast

subsection \<open>Rescaling key, message and signature\<close>

text \<open>
  An accepted signature stays accepted when the key is multiplied by \<open>a\<close>, the message by
  \<open>b\<close>, \<open>z\<close> by \<open>psi * a * b\<close> and the other two entries by an inverse of \<open>psi\<close>, for
  \<open>a\<close> and \<open>b\<close> that are not multiples of \<open>curve.r\<close>: then no point becomes neutral. Both
  \<open>convert_signature\<close> and \<open>change_representation\<close> are instances.
\<close>

lemma foldl_pow:
  "bn254_ok L \<Longrightarrow>
   fp12_pow L (foldl (fp12_mul L) t ts) n
     = foldl (fp12_mul L) (fp12_pow L t n) (map (\<lambda>s. fp12_pow L s n) ts)"
  by (induction ts arbitrary: t) (simp_all add: fp12_pow_mul_dist)

lemma lprod_pow:
  "bn254_ok L \<Longrightarrow> lprod L (map (\<lambda>s. fp12_pow L s n) ts) = fp12_pow L (lprod L ts) n"
  by (cases ts) (simp_all add: foldl_pow fp12_pow_one)

lemma verify_scaled:
  assumes ok: "bn254_ok L"
    and v: "verify L pk M (z, y, yh) = Inr True"
    and inv: "(psi' * psi) mod curve_r L = 1"
    and a: "a mod curve_r L \<noteq> 0" and b: "b mod curve_r L \<noteq> 0"
  shows "verify L (map (smul L a) pk) (map (smul L b) M)
           (smul L (psi * (a * b)) z, smul L psi' y, smul L psi' yh) = Inr True"
proof -
  from v obtain qs Z Y Yh where h: "zip pk M = map tagp qs" "qs \<noteq> []"
        "z = ECp Z" "y = ECp Y" "yh = ECp2 Yh"
        "lprod L (map (\<lambda>q. tpair L (fst q) (snd q)) qs) = tpair L Yh Z"
        "tpair L (ecp2_generator L) Y = tpair L Yh (ecp_generator L)"
      and n: "\<forall>q\<in>set qs. fst q \<noteq> ecp2_inf L \<and> snd q \<noteq> ecp_inf L"
        "Z \<noteq> ecp_inf L" "Y \<noteq> ecp_inf L" "Yh \<noteq> ecp2_inf L"
        "ecp_generator L \<noteq> ecp_inf L" "ecp2_generator L \<noteq> ecp2_inf L"
    unfolding verify_iff by auto
  have psi: "psi' mod curve_r L \<noteq> 0" "psi mod curve_r L \<noteq> 0"
    using inverse_nonzero[OF ok inv] by simp_all
  let ?qs = "map (\<lambda>q. (ecp2_mul L a (fst q), ecp_mul L b (snd q))) qs"
  have "zip (map (smul L a) pk) (map (smul L b) M)
          = map (\<lambda>(x, m). (smul L a x, smul L b m)) (zip pk M)"
    by (simp add: zip_map_map)
  also have "\<dots> = map tagp ?qs"
    by (simp add: h(1) tagp_def)
  finally have z: "zip (map (smul L a) pk) (map (smul L b) M) = map tagp ?qs" .
  have nq: "\<forall>q\<in>set ?qs. fst q \<noteq> ecp2_inf L \<and> snd q \<noteq> ecp_inf L"
    using n(1) ok a b by (auto simp: ecp_mul_ne ecp2_mul_ne)
  have "ecp_mul L (psi * (a * b)) Z = ecp_mul L psi (ecp_mul L a (ecp_mul L b Z))"
    using ok by (simp add: ecp_mul_mul)
  then have nz: "ecp_mul L (psi * (a * b)) Z \<noteq> ecp_inf L"
    using ok n(2) a b psi(2) by (simp add: ecp_mul_ne)
  have ny: "ecp_mul L psi' Y \<noteq> ecp_inf L" using ok n(3) psi(1) by (rule ecp_mul_ne)
  have nyh: "ecp2_mul L psi' Yh \<noteq> ecp2_inf L" using ok n(4) psi(1) by (rule ecp2_mul_ne)
  have "map (\<lambda>q. tpair L (fst q) (snd q)) ?qs
          = map (\<lambda>s. fp12_pow L s (a * b)) (map (\<lambda>q. tpair L (fst q) (snd q)) qs)"
    using ok by (simp add: pair_mul1 pair_mul2 fp12_pow_pow mult.commute)
  then have p1: "lprod L (map (\<lambda>q. tpair L (fst q) (snd q)) ?qs)
                  = fp12_pow L (tpair L Yh Z) (a * b)"
    using ok h(6) by (simp only: lprod_pow)
  have "psi * (a * b) * psi' = (a * b) * (psi' * psi)"
    by (simp add: mult_ac)
  then have "(psi * (a * b) * psi') mod curve_r L = ((a * b) * ((psi' * psi) mod curve_r L)) mod curve_r L"
    by (simp only: mod_mult_right_eq)
  then have m: "(psi * (a * b) * psi') mod curve_r L = (a * b) mod curve_r L"
    by (simp add: inv)
  have "tpair L (ecp2_mul L psi' Yh) (ecp_mul L (psi * (a * b)) Z)
          = fp12_pow L (tpair L Yh Z) (psi * (a * b) * psi')"
    using ok by (simp add: pair_mul1 pair_mul2 fp12_pow_pow mult.commute)
  also have "\<dots> = fp12_pow L (tpair L Yh Z) (a * b)"
    using ok m by (metis pair_pow_mod)
  finally have p2: "tpair L (ecp2_mul L psi' Yh) (ecp_mul L (psi * (a * b)) Z)
                     = fp12_pow L (tpair L Yh Z) (a * b)" .
  have p3: "tpair L (ecp2_generator L) (ecp_mul L psi' Y)
             = tpair L (ecp2_mul L psi' Yh) (ecp_generator L)"
    using ok h(7) by (simp add: pair_mul1 pair_mul2)
  have ne: "?qs \<noteq> []" using h(2) by simp
  show ?thesis
    unfolding h(3,4,5) smul.simps
    by (rule verifyI[OF z ne nq nz ny nyh n(5,6) _ p3]) (simp only: p1 p2)
qed

subsection \<open>What the primary sign computes\<close>

lemma reduce_from_padd:
  "reduce_from (padd L) (ECp N) (map ECp Ns) = Inr (ECp (foldl (ecp_add L) N Ns))"
  by (induction Ns arbitrary: N) simp_all

lemma reduce_padd:
  "Ns \<noteq> [] \<Longrightarrow> reduce (padd L) (map ECp Ns) = Inr (ECp (lsum L Ns))"
  by (cases Ns) (simp_all add: reduce_from_padd)

lemma sign_value:
  assumes "zip sk Ms \<noteq> []"
  shows "sign L sk (map ECp Ms) g =
           (Inr (ECp (ecp_mul L (g 0) (lsum L (map (\<lambda>(x, N). ecp_mul L x N) (zip sk Ms)))),
                 ECp (ecp_mul L (invmodp L (g 0) (curve_r L)) (ecp_generator L)),
                 ECp2 (ecp2_mul L (invmodp L (g 0) (curve_r L)) (ecp2_generator L))),
            \<lambda>n. g (Suc n))"
proof -
  have "map (\<lambda>(xi, mi). smul L xi mi) (zip sk (map ECp Ms))
          = map ECp (map (\<lambda>(x, N). ecp_mul L x N) (zip sk Ms))"
    by (simp add: zip_map2 case_prod_unfold)
  moreover have "map (\<lambda>(x, N). ecp_mul L x N) (zip sk Ms) \<noteq> []"
    using assms by simp
  ultimately have "reduce (padd L) (map (\<lambda>(xi, mi). smul L xi mi) (zip sk (map ECp Ms)))
          = Inr (ECp (lsum L (map (\<lambda>(x, N). ecp_mul L x N) (zip sk Ms))))"
    using reduce_padd[of "map (\<lambda>(x, N). ecp_mul L x N) (zip sk Ms)" L] by simp
  then show ?thesis
    by (simp add: sign_def random_zp_def big_rand_def Let_def)
qed

lemma foldl_pair:
  "bn254_ok L \<Longrightarrow>
   foldl (fp12_mul L) (tpair L Q N) (map (tpair L Q) Ns) = tpair L Q (foldl (ecp_add L) N Ns)"
  by (induction Ns arbitrary: N) (simp_all add: pair_laws(2)[symmetric])

lemma lprod_pair:
  "bn254_ok L \<Longrightarrow> lprod L (map (tpair L Q) Ns) = tpair L Q (lsum L Ns)"
  by (cases Ns) (simp_all add: foldl_pair pair_laws(4))

lemma sum_not_neutral_ECp:
  assumes "zip sk Ms \<noteq> []"
  shows "sum_not_neutral L sk (map ECp Ms)
           \<longleftrightarrow> lsum L (map (\<lambda>(x, N). ecp_mul L x N) (zip sk Ms)) \<noteq> ecp_inf L"
proof -
  have "map (\<lambda>(xi, mi). smul L xi mi) (zip sk (map ECp Ms))
          = map ECp (map (\<lambda>(x, N). ecp_mul L x N) (zip sk Ms))"
    by (simp add: zip_map2 case_prod_unfold)
  moreover have "map (\<lambda>(x, N). ecp_mul L x N) (zip sk Ms) \<noteq> []"
    using assms by simp
  ultimately have "reduce (padd L) (map (\<lambda>(xi, mi). smul L xi mi) (zip sk (map ECp Ms)))
          = Inr (ECp (lsum L (map (\<lambda>(x, N). ecp_mul L x N) (zip sk Ms))))"
    using reduce_padd[of "map (\<lambda>(x, N). ecp_mul L x N) (zip sk Ms)" L] by simp
  then show ?thesis by (simp add: sum_not_neutral_def)
qed

lemma sign_verify:
  assumes ok: "bn254_ok L"
    and ne: "zip sk Ms \<noteq> []"
    and y: "g 0 mod curve_r L \<noteq> 0"
    and nk: "no_neutral L (map (\<lambda>x. smul L x (ECp2 (ecp2_generator L))) sk)"
    and nm: "no_neutral L (map ECp Ms)"
    and ns: "sum_not_neutral L sk (map ECp Ms)"
  shows "\<exists>sg. sign L sk (map ECp Ms) g = (Inr sg, \<lambda>n. g (Suc n)) \<and>
              verify L (map (\<lambda>x. smul L x (ECp2 (ecp2_generator L))) sk) (map ECp Ms) sg = Inr True"
proof -
  let ?y = "g 0" and ?y' = "invmodp L (g 0) (curve_r L)"
  let ?S = "lsum L (map (\<lambda>(x, N). ecp_mul L x N) (zip sk Ms))"
  let ?qs = "map (\<lambda>(x, N). (ecp2_mul L x (ecp2_generator L), N)) (zip sk Ms)"
  have z: "zip (map (\<lambda>x. smul L x (ECp2 (ecp2_generator L))) sk) (map ECp Ms) = map tagp ?qs"
    by (simp add: zip_map_map tagp_def case_prod_unfold)
  have nq: "?qs \<noteq> []" using ne by simp
  have nS: "?S \<noteq> ecp_inf L" using ns sum_not_neutral_ECp[OF ne, of L] by simp
  have nqs: "\<forall>q\<in>set ?qs. fst q \<noteq> ecp2_inf L \<and> snd q \<noteq> ecp_inf L"
  proof
    fix q assume "q \<in> set ?qs"
    then obtain x N where q: "q = (ecp2_mul L x (ecp2_generator L), N)" "(x, N) \<in> set (zip sk Ms)"
      by auto
    then have "x \<in> set sk" "N \<in> set Ms" by (auto dest: set_zip_leftD set_zip_rightD)
    then show "fst q \<noteq> ecp2_inf L \<and> snd q \<noteq> ecp_inf L"
      using nk nm q(1) by (auto simp: no_neutral_def list_all_iff)
  qed
  have inv': "(?y' * ?y) mod curve_r L = 1"
    by (rule scalar_laws(2)[OF ok y])
  then have inv: "(?y * ?y') mod curve_r L = 1"
    by (simp add: mult.commute)
  have y': "?y' mod curve_r L \<noteq> 0"
    using inverse_nonzero(1)[OF ok inv'] .
  have nz: "ecp_mul L ?y ?S \<noteq> ecp_inf L" using ok nS y by (rule ecp_mul_ne)
  have ny: "ecp_mul L ?y' (ecp_generator L) \<noteq> ecp_inf L"
    using ok generator_laws(1)[OF ok] y' by (rule ecp_mul_ne)
  have nyh: "ecp2_mul L ?y' (ecp2_generator L) \<noteq> ecp2_inf L"
    using ok generator_laws(2)[OF ok] y' by (rule ecp2_mul_ne)
  have "map (\<lambda>q. tpair L (fst q) (snd q)) ?qs
          = map (tpair L (ecp2_generator L)) (map (\<lambda>(x, N). ecp_mul L x N) (zip sk Ms))"
    using ok by (simp add: pair_mul1 pair_mul2 case_prod_unfold)
  then have p1: "lprod L (map (\<lambda>q. tpair L (fst q) (snd q)) ?qs) = tpair L (ecp2_generator L) ?S"
    using ok by (simp only: lprod_pair)
  have "tpair L (ecp2_mul L ?y' (ecp2_generator L)) (ecp_mul L ?y ?S)
          = fp12_pow L (tpair L (ecp2_generator L) ?S) (?y * ?y')"
    using ok by (simp add: pair_mul1 pair_mul2 fp12_pow_pow mult.commute)
  also have "\<dots> = tpair L (ecp2_generator L) ?S"
    using ok inv by (rule pair_pow_unit)
  finally have p2: "tpair L (ecp2_mul L ?y' (ecp2_generator L)) (ecp_mul L ?y ?S)
                     = tpair L (ecp2_generator L) ?S" .
  have p3: "tpair L (ecp2_generator L) (ecp_mul L ?y' (ecp_generator L))
              = tpair L (ecp2_mul L ?y' (ecp2_generator L)) (ecp_generator L)"
    using ok by (simp add: pair_mul1 pair_mul2)
  have "verify L (map (\<lambda>x. smul L x (ECp2 (ecp2_generator L))) sk) (map ECp Ms)
          (ECp (ecp_mul L ?y ?S), ECp (ecp_mul L ?y' (ecp_generator L)),
           ECp2 (ecp2_mul L ?y' (ecp2_generator L))) = Inr True"
    by (rule verifyI[OF z nq nqs nz ny nyh generator_laws[OF ok] _ p3]) (simp only: p1 p2)
  then show ?thesis
    by (simp add: sign_value[OF ne])
qed

subsection \<open>The dual scheme is the primary scheme with the groups exchanged\<close>

lemma swp_swp [simp]: "swp (swp P) = P"
  by (cases P) simp_all

lemma swap_lib_sel [simp]:
  "curve_r (swap_lib L) = curve_r L"
  "ecp_inf (swap_lib L) = ecp2_inf L"
  "ecp2_inf (swap_lib L) = ecp_inf L"
  "fp12_one (swap_lib L) = fp12_one L"
  "ecp_generator (swap_lib L) = ecp2_generator L"
  "ecp2_generator (swap_lib L) = ecp_generator L"
  "ecp_add (swap_lib L) = ecp2_add L"
  "ecp2_add (swap_lib L) = ecp_add L"
  "ecp_mul (swap_lib L) = ecp2_mul L"
  "ecp2_mul (swap_lib L) = ecp_mul L"
  "fp12_mul (swap_lib L) = fp12_mul L"
  "pair_e (swap_lib L) P Q = pair_e L Q P"
  "invmodp (swap_lib L) = invmodp L"
  by (simp_all add: swap_lib_def)

lemma swap_ecp_group: "ecp_group (swap_lib L) = ecp2_group L"
  by (simp only: ecp_group_def ecp2_group_def swap_lib_sel)

lemma swap_ecp2_group: "ecp2_group (swap_lib L) = ecp_group L"
  by (simp only: ecp_group_def ecp2_group_def swap_lib_sel)

lemma swap_fp12_monoid: "fp12_monoid (swap_lib L) = fp12_monoid L"
  by (simp only: fp12_monoid_def swap_lib_sel)

lemma swap_bilinear: "bilinear L \<Longrightarrow> bilinear (swap_lib L)"
  unfolding bilinear_def by (simp only: swap_lib_sel) blast

lemma swap_generators_ok: "generators_ok (swap_lib L) = generators_ok L"
  by (auto simp: generators_ok_def)

lemma swap_scalar_field: "scalar_field (swap_lib L) = scalar_field L"
  by (simp only: scalar_field_def swap_lib_sel)

lemma swap_lib_ok: "bn254_ok L \<Longrightarrow> bn254_ok (swap_lib L)"
  unfolding bn254_ok_def
  by (simp only: swap_ecp_group swap_ecp2_group swap_fp12_monoid swap_scalar_field swap_bilinear
      swap_generators_ok)

lemma smul_swap: "smul (swap_lib L) k (swp P) = swp (smul L k P)"
  by (cases P) simp_all

lemma e_swap: "e (swap_lib L) (swp x) (swp m) = e L m x"
  by (cases x; cases m) auto

lemma neutral_swap: "neutral (swap_lib L) (swp P) = neutral L P"
  by (cases P) simp_all

lemma no_neutral_swap: "no_neutral (swap_lib L) (map swp Ps) = no_neutral L Ps"
  by (simp add: no_neutral_def list_all_iff neutral_swap)

lemma padd_swap: "padd (swap_lib L) (swp a) (swp b) = map_sum id swp (padd L a b)"
  by (cases a; cases b) simp_all

lemma reduce_from_swap:
  "reduce_from (padd (swap_lib L)) (swp a) (map swp bs) = map_sum id swp (reduce_from (padd L) a bs)"
proof (induction bs arbitrary: a)
  case Nil
  then show ?case by simp
next
  case (Cons b bs)
  then show ?case
    by (cases "padd L a b") (simp_all add: padd_swap)
qed

lemma reduce_swap:
  "reduce (padd (swap_lib L)) (map swp xs) = map_sum id swp (reduce (padd L) xs)"
  by (cases xs) (simp_all add: reduce_from_swap)

lemma comprehension_map: "comprehension f (map h xs) = comprehension (\<lambda>x. f (h x)) xs"
  by (induction xs) simp_all

lemma dual_verify_swap:
  "dual_verify L pk M sg = verify (swap_lib L) (map swp pk) (map swp M) (swp_sig sg)"
proof -
  obtain z y yh where sg: "sg = (z, y, yh)" by (cases sg)
  have c: "comprehension (\<lambda>(xi, mi). e (swap_lib L) xi mi) (zip (map swp pk) (map swp M))
        = comprehension (\<lambda>(Xi, mi). e L mi Xi) (zip pk M)"
    by (simp add: zip_map_map comprehension_map case_prod_unfold e_swap)
  have g: "ECp2 (ecp_generator L) = swp (ECp (ecp_generator L))"
          "ECp (ecp2_generator L) = swp (ECp2 (ecp2_generator L))"
    by simp_all
  show ?thesis
    unfolding dual_verify_def verify_def sg swp_sig_def prod.case c swap_lib_sel g e_swap
    by simp
qed

lemma dual_sign_swap:
  "dual_sign L sk M g =
     (map_sum id swp_sig (fst (sign (swap_lib L) sk (map swp M) g)),
      snd (sign (swap_lib L) sk (map swp M) g))"
proof -
  have m: "map (\<lambda>(xi, mi). smul (swap_lib L) xi mi) (zip sk (map swp M))
         = map swp (map (\<lambda>(Xi, mi). smul L Xi mi) (zip sk M))"
    by (simp add: zip_map2 case_prod_unfold smul_swap)
  show ?thesis
    unfolding dual_sign_def sign_def m reduce_swap
    by (cases "reduce (padd L) (map (\<lambda>(Xi, mi). smul L Xi mi) (zip sk M))")
       (simp_all add: random_zp_def big_rand_def Let_def swp_sig_def smul_swap)
qed

lemma sum_not_neutral_swap: "sum_not_neutral (swap_lib L) sk (map swp M) = sum_not_neutral L sk M"
proof -
  have m: "map (\<lambda>(xi, mi). smul (swap_lib L) xi mi) (zip sk (map swp M))
         = map swp (map (\<lambda>(Xi, mi). smul L Xi mi) (zip sk M))"
    by (simp add: zip_map2 case_prod_unfold smul_swap)
  show ?thesis
    unfolding sum_not_neutral_def m reduce_swap
    by (cases "reduce (padd L) (map (\<lambda>(Xi, mi). smul L Xi mi) (zip sk M))")
       (simp_all add: neutral_swap)
qed

lemma dual_verify_scaled:
  assumes ok: "bn254_ok L"
    and v: "dual_verify L pk M (z, y, yh) = Inr True"
    and inv: "(psi' * psi) mod curve_r L = 1"
    and a: "a mod curve_r L \<noteq> 0" and b: "b mod curve_r L \<noteq> 0"
  shows "dual_verify L (map (smul L a) pk) (map (smul L b) M)
           (smul L (psi * (a * b)) z, smul L psi' y, smul L psi' yh) = Inr True"
proof -
  have "verify (swap_lib L) (map swp pk) (map swp M) (swp z, swp y, swp yh) = Inr True"
    using v by (simp add: dual_verify_swap swp_sig_def)
  then have "verify (swap_lib L) (map (smul (swap_lib L) a) (map swp pk))
               (map (smul (swap_lib L) b) (map swp M))
               (smul (swap_lib L) (psi * (a * b)) (swp z), smul (swap_lib L) psi' (swp y),
                smul (swap_lib L) psi' (swp yh)) = Inr True"
    using swap_lib_ok[OF ok] inv a b by (intro verify_scaled) simp_all
  then show ?thesis
    by (simp add: dual_verify_swap swp_sig_def smul_swap comp_def)
qed

lemma dual_sign_verify:
  assumes ok: "bn254_ok L"
    and ne: "zip sk Ms \<noteq> []"
    and y: "g 0 mod curve_r L \<noteq> 0"
    and nk: "no_neutral L (map (\<lambda>x. smul L x (ECp (ecp_generator L))) sk)"
    and nm: "no_neutral L (map ECp2 Ms)"
    and ns: "sum_not_neutral L sk (map ECp2 Ms)"
  shows "\<exists>sg. dual_sign L sk (map ECp2 Ms) g = (Inr sg, \<lambda>n. g (Suc n)) \<and>
              dual_verify L (map (\<lambda>x. smul L x (ECp (ecp_generator L))) sk) (map ECp2 Ms) sg = Inr True"
proof -
  have y': "g 0 mod curve_r (swap_lib L) \<noteq> 0" using y by simp
  have m: "map swp (map ECp2 Ms) = (map ECp Ms :: ('b, 'a) point list)"
    by simp
  have k: "map swp (map (\<lambda>x. smul L x (ECp (ecp_generator L))) sk)
             = map (\<lambda>x. smul (swap_lib L) x (ECp2 (ecp2_generator (swap_lib L)))) sk"
    by simp
  have nk': "no_neutral (swap_lib L)
               (map (\<lambda>x. smul (swap_lib L) x (ECp2 (ecp2_generator (swap_lib L)))) sk)"
    using nk unfolding k[symmetric] no_neutral_swap .
  have nm': "no_neutral (swap_lib L) (map ECp Ms :: ('b, 'a) point list)"
    using nm unfolding m[symmetric] no_neutral_swap .
  have ns': "sum_not_neutral (swap_lib L) sk (map ECp Ms :: ('b, 'a) point list)"
    using ns unfolding m[symmetric] sum_not_neutral_swap .
  obtain sg where sg: "sign (swap_lib L) sk (map ECp Ms) g = (Inr sg, \<lambda>n. g (Suc n))"
    "verify (swap_lib L) (map (\<lambda>x. smul (swap_lib L) x (ECp2 (ecp2_generator (swap_lib L)))) sk)
       (map ECp Ms) sg = Inr True"
    using sign_verify[of "swap_lib L" sk Ms g] swap_lib_ok[OF ok] ne y' nk' nm' ns' by blast
  have s: "dual_sign L sk (map ECp2 Ms) g = (Inr (swp_sig sg), \<lambda>n. g (Suc n))"
    unfolding dual_sign_swap m sg by simp
  have "swp_sig (swp_sig sg) = sg"
    by (cases sg) (simp add: swp_sig_def)
  then have "dual_verify L (map (\<lambda>x. smul L x (ECp (ecp_generator L))) sk) (map ECp2 Ms) (swp_sig sg)
               = Inr True"
    using sg(2) by (simp add: dual_verify_swap comp_def)
  then show ?thesis using s by blast
qed

subsection \<open>Samples and key generation\<close>

lemma random_zp_eq: "random_zp L g = (g 0, \<lambda>n. g (Suc n))"
  by (simp add: random_zp_def big_rand_def)

lemma rng_ok_tl: "rng_ok L g \<Longrightarrow> rng_ok L (\<lambda>n. g (Suc n))"
  by (simp add: rng_ok_def)

lemma rng_ok_shift: "rng_ok L g \<Longrightarrow> rng_ok L (\<lambda>n. g (n + k))"
  by (simp add: rng_ok_def)

lemma rng_ok_0: "rng_ok L g \<Longrightarrow> g 0 mod curve_r L \<noteq> 0"
  by (simp add: rng_ok_def)

lemma key_gen_loop_eq:
  "key_gen_loop L n sk pk g =
     ((pk @ keys_of L MercurialSignatureScheme (map g [0..<n]), sk @ map g [0..<n]),
      \<lambda>m. g (m + n))"
proof (induction n arbitrary: sk pk g)
  case 0
  then show ?case by (simp add: keys_of_def)
next
  case (Suc n)
  have "map g [0..<Suc n] = g 0 # map (\<lambda>i. g (Suc i)) [0..<n]"
    by (rule map_upt_Suc)
  then show ?case
    by (simp add: random_zp_eq Suc.IH keys_of_def del: upt_Suc)
qed

lemma dual_key_gen_loop_eq:
  "dual_key_gen_loop L n sk pk g =
     ((pk @ keys_of L MercurialSignatureDual (map g [0..<n]), sk @ map g [0..<n]),
      \<lambda>m. g (m + n))"
proof (induction n arbitrary: sk pk g)
  case 0
  then show ?case by (simp add: keys_of_def)
next
  case (Suc n)
  have "map g [0..<Suc n] = g 0 # map (\<lambda>i. g (Suc i)) [0..<n]"
    by (rule map_upt_Suc)
  then show ?case
    by (simp add: random_zp_eq Suc.IH keys_of_def del: upt_Suc)
qed

lemma scheme_key_gen_eq:
  "scheme_key_gen sch L ell g =
     ((keys_of L sch (map g [0..<nat ell]), map g [0..<nat ell]), \<lambda>m. g (m + nat ell))"
  by (cases sch) (simp_all add: key_gen_def dual_key_gen_def key_gen_loop_eq dual_key_gen_loop_eq)

subsection \<open>Both schemes at once\<close>

lemma in_message_group_primary:
  "list_all (in_message_group MercurialSignatureScheme) M \<Longrightarrow> \<exists>Ms. M = map ECp Ms"
proof (induction M)
  case Nil
  then show ?case by simp
next
  case (Cons P M)
  then obtain Ms where "M = map ECp Ms" by auto
  moreover obtain N where "P = ECp N" using Cons.prems by (cases P) auto
  ultimately have "P # M = map ECp (N # Ms)" by simp
  then show ?case by (rule exI)
qed

lemma in_message_group_dual:
  "list_all (in_message_group MercurialSignatureDual) M \<Longrightarrow> \<exists>Ms. M = map ECp2 Ms"
proof (induction M)
  case Nil
  then show ?case by simp
next
  case (Cons P M)
  then obtain Ms where "M = map ECp2 Ms" by auto
  moreover obtain N where "P = ECp2 N" using Cons.prems by (cases P) auto
  ultimately have "P # M = map ECp2 (N # Ms)" by simp
  then show ?case by (rule exI)
qed

lemma scheme_sign_verify:
  assumes ok: "bn254_ok L"
    and ne: "sk \<noteq> []" "M \<noteq> []"
    and ty: "list_all (in_message_group sch) M"
    and y: "g 0 mod curve_r L \<noteq> 0"
    and nk: "no_neutral L (keys_of L sch sk)"
    and nm: "no_neutral L M"
    and ns: "sum_not_neutral L sk M"
  shows "\<exists>sg. scheme_sign sch L sk M g = (Inr sg, \<lambda>n. g (Suc n)) \<and>
              scheme_verify sch L (keys_of L sch sk) M sg = Inr True"
proof (cases sch)
  case MercurialSignatureScheme
  then obtain Ms where M: "M = map ECp Ms"
    using ty in_message_group_primary by blast
  have "zip sk Ms \<noteq> []" using ne M by (cases sk; cases Ms) auto
  then show ?thesis
    using sign_verify[of L sk Ms g] ok y nk nm ns
    by (simp add: MercurialSignatureScheme M keys_of_def)
next
  case MercurialSignatureDual
  then obtain Ms where M: "M = map ECp2 Ms"
    using ty in_message_group_dual by blast
  have "zip sk Ms \<noteq> []" using ne M by (cases sk; cases Ms) auto
  then show ?thesis
    using dual_sign_verify[of L sk Ms g] ok y nk nm ns
    by (simp add: MercurialSignatureDual M keys_of_def)
qed

lemma scheme_verify_scaled:
  assumes "bn254_ok L"
    and "scheme_verify sch L pk M (z, y, yh) = Inr True"
    and "(psi' * psi) mod curve_r L = 1"
    and "a mod curve_r L \<noteq> 0" and "b mod curve_r L \<noteq> 0"
  shows "scheme_verify sch L (map (smul L a) pk) (map (smul L b) M)
           (smul L (psi * (a * b)) z, smul L psi' y, smul L psi' yh) = Inr True"
  using assms by (cases sch) (simp_all add: verify_scaled dual_verify_scaled)

lemma ecp_mul_1: "bn254_ok L \<Longrightarrow> ecp_mul L (Suc 0) P = P"
  by (metis ecp_laws(2,3,4,5))

lemma ecp2_mul_1: "bn254_ok L \<Longrightarrow> ecp2_mul L (Suc 0) P = P"
  by (metis ecp2_laws(2,3,4,5))

lemma smul_1: "bn254_ok L \<Longrightarrow> smul L (Suc 0) P = P"
  by (cases P) (simp_all add: ecp_mul_1 ecp2_mul_1)

lemma map_smul_1: "bn254_ok L \<Longrightarrow> map (smul L (Suc 0)) M = M"
  by (simp add: smul_1 map_idI)

lemma verify_convert:
  assumes ok: "bn254_ok L"
    and v: "scheme_verify sch L pk M sg = Inr True"
    and psi: "g 0 mod curve_r L \<noteq> 0"
    and rho: "rho mod curve_r L \<noteq> 0"
  shows "scheme_verify sch L (convert_public_key L pk rho) M
           (fst (convert_signature L pk0 M0 sg rho g)) = Inr True"
proof -
  obtain z y yh where sg: "sg = (z, y, yh)" by (cases sg)
  have "scheme_verify sch L (map (smul L rho) pk) (map (smul L (Suc 0)) M)
          (smul L (g 0 * (rho * Suc 0)) z, smul L (invmodp L (g 0) (curve_r L)) y,
           smul L (invmodp L (g 0) (curve_r L)) yh) = Inr True"
    using ok v[unfolded sg] scalar_laws(2)[OF ok psi] rho one_nonzero[OF ok]
    by (rule scheme_verify_scaled)
  then show ?thesis
    using ok by (simp add: sg convert_signature_def convert_public_key_def random_zp_eq map_smul_1)
qed

lemma verify_change:
  assumes ok: "bn254_ok L"
    and v: "scheme_verify sch L pk M sg = Inr True"
    and psi: "g 0 mod curve_r L \<noteq> 0"
    and mu: "mu mod curve_r L \<noteq> 0"
  shows "scheme_verify sch L pk (fst (fst (change_representation L pk0 M sg mu g)))
           (snd (fst (change_representation L pk0 M sg mu g))) = Inr True"
proof -
  obtain z y yh where sg: "sg = (z, y, yh)" by (cases sg)
  have "scheme_verify sch L (map (smul L (Suc 0)) pk) (map (smul L mu) M)
          (smul L (g 0 * (Suc 0 * mu)) z, smul L (invmodp L (g 0) (curve_r L)) y,
           smul L (invmodp L (g 0) (curve_r L)) yh) = Inr True"
    using ok v[unfolded sg] scalar_laws(2)[OF ok psi] one_nonzero[OF ok] mu
    by (rule scheme_verify_scaled)
  then show ?thesis
    using ok by (simp add: sg change_representation_def random_zp_eq map_smul_1)
qed

lemma change_representation_eq:
  "change_representation L pk M (z, y, yh) mu g =
     ((map (smul L mu) M,
       smul L (g 0 * mu) z, smul L (invmodp L (g 0) (curve_r L)) y,
       smul L (invmodp L (g 0) (curve_r L)) yh),
      \<lambda>n. g (Suc n))"
  by (simp add: change_representation_def random_zp_eq)

lemma convert_signature_eq:
  "convert_signature L pk M (z, y, yh) rho g =
     ((smul L (g 0 * rho) z, smul L (invmodp L (g 0) (curve_r L)) y,
       smul L (invmodp L (g 0) (curve_r L)) yh),
      \<lambda>n. g (Suc n))"
  by (simp add: convert_signature_def random_zp_eq)

lemma convert_keys_of:
  "bn254_ok L \<Longrightarrow> convert_public_key L (keys_of L sch sk) rho = keys_of L sch (convert_secret_key sk rho)"
  by (simp add: convert_public_key_def keys_of_def convert_secret_key_def smul_smul comp_def)

subsection \<open>Multiples of the sum that sign reduces\<close>

text \<open>
  Multiplying every entry of the secret key by \<open>rho\<close> multiplies the sum of the products
  by \<open>rho\<close>, so for \<open>rho\<close> not a multiple of \<open>curve.r\<close> the sum stays away from the
  neutral point. A public key without a neutral point has no secret entry that is a
  multiple of \<open>curve.r\<close>.
\<close>

lemma ecp_add_inf_right: "bn254_ok L \<Longrightarrow> ecp_add L P (ecp_inf L) = P"
  by (metis ecp_laws(2,3))

lemma ecp2_add_inf_right: "bn254_ok L \<Longrightarrow> ecp2_add L P (ecp2_inf L) = P"
  by (metis ecp2_laws(2,3))

lemma ecp_mul_dist:
  "bn254_ok L \<Longrightarrow> ecp_mul L n (ecp_add L P Q) = ecp_add L (ecp_mul L n P) (ecp_mul L n Q)"
proof (induction n)
  case 0
  then show ?case by (simp add: ecp_laws(3,4))
next
  case (Suc n)
  then show ?case
    by (simp add: ecp_laws(5) ecp_laws(1) ecp_add_left_commute)
qed

lemma ecp2_mul_dist:
  "bn254_ok L \<Longrightarrow> ecp2_mul L n (ecp2_add L P Q) = ecp2_add L (ecp2_mul L n P) (ecp2_mul L n Q)"
proof (induction n)
  case 0
  then show ?case by (simp add: ecp2_laws(3,4))
next
  case (Suc n)
  then show ?case
    by (simp add: ecp2_laws(5) ecp2_laws(1) ecp2_add_left_commute)
qed

lemma padd_smul:
  "bn254_ok L \<Longrightarrow> padd L (smul L n a) (smul L n b) = map_sum id (smul L n) (padd L a b)"
  by (cases a; cases b) (simp_all add: ecp_mul_dist ecp2_mul_dist)

lemma reduce_from_smul:
  "bn254_ok L \<Longrightarrow>
   reduce_from (padd L) (smul L n a) (map (smul L n) bs)
     = map_sum id (smul L n) (reduce_from (padd L) a bs)"
proof (induction bs arbitrary: a)
  case Nil
  then show ?case by simp
next
  case (Cons b bs)
  then show ?case
    by (cases "padd L a b") (simp_all add: padd_smul)
qed

lemma reduce_smul:
  "bn254_ok L \<Longrightarrow>
   reduce (padd L) (map (smul L n) xs) = map_sum id (smul L n) (reduce (padd L) xs)"
  by (cases xs) (simp_all add: reduce_from_smul)

lemma sum_not_neutral_convert:
  assumes ok: "bn254_ok L" and rho: "rho mod curve_r L \<noteq> 0"
    and s: "sum_not_neutral L sk M"
  shows "sum_not_neutral L (convert_secret_key sk rho) M"
proof -
  have m: "map (\<lambda>(xi, mi). smul L xi mi) (zip (convert_secret_key sk rho) M)
         = map (smul L rho) (map (\<lambda>(xi, mi). smul L xi mi) (zip sk M))"
    using ok by (simp add: convert_secret_key_def zip_map1 case_prod_unfold smul_smul)
  show ?thesis
    using s unfolding sum_not_neutral_def m reduce_smul[OF ok]
    by (cases "reduce (padd L) (map (\<lambda>(xi, mi). smul L xi mi) (zip sk M))")
       (simp_all add: smul_neutral[OF ok _ rho])
qed

lemma no_neutral_convert:
  assumes "bn254_ok L" and "rho mod curve_r L \<noteq> 0" and "no_neutral L (keys_of L sch sk)"
  shows "no_neutral L (keys_of L sch (convert_secret_key sk rho))"
  using no_neutral_smul[OF assms(1,3,2)] convert_keys_of[OF assms(1), of sch sk rho]
  by (simp add: convert_public_key_def)

lemma key_base_not_neutral: "bn254_ok L \<Longrightarrow> \<not> neutral L (key_base sch L)"
  by (cases sch) (simp_all add: generator_laws)

lemma no_neutral_keys_of:
  assumes "bn254_ok L" and "\<forall>x\<in>set sk. x mod curve_r L \<noteq> 0"
  shows "no_neutral L (keys_of L sch sk)"
  using assms
  by (simp add: no_neutral_def keys_of_def list_all_iff smul_neutral key_base_not_neutral)

subsection \<open>The small library meets the contract\<close>

lemma toy_sel [simp]:
  "curve_r toy = 7" "curve_x toy = 1" "curve_EFS toy = 1"
  "ecp_inf toy = 0" "ecp2_inf toy = 0" "fp12_one toy = 0"
  "ecp_generator toy = 1" "ecp2_generator toy = 1"
  "ecp_add toy P Q = P + Q" "ecp2_add toy P Q = P + Q"
  "ecp_mul toy k P = of_nat k * P" "ecp2_mul toy k P = of_nat k * P"
  "fp12_mul toy s t = s + t" "pair_e toy Q P = Q * P"
  "invmodp toy a m = [0, 1, 4, 5, 2, 3, 6] ! (a mod m)"
  by (simp_all add: toy_def)

lemma seven_eq_0: "(7::7) = 0"
  by simp

lemma of_nat_7: "(of_nat 7 :: 7) = 0"
  by (simp only: of_nat_numeral seven_eq_0)

lemma mult_7: "P * (7::7) = 0" "(7::7) * P = 0"
  by (simp_all only: seven_eq_0 mult_zero_right mult_zero_left)

lemma inverse_7:
  fixes s :: nat
  assumes "s mod 7 \<noteq> 0"
  shows "([0, 1, 4, 5, 2, 3, 6] ! (s mod 7) * s) mod 7 = 1"
proof -
  have eq: "([0, 1, 4, 5, 2, 3, 6] ! (s mod 7) * s) mod 7
          = ([0, 1, 4, 5, 2, 3, 6] ! (s mod 7) * (s mod 7)) mod 7"
    by (simp only: mod_mult_right_eq)
  have "s mod 7 < 7" by simp
  then consider "s mod 7 = 1" | "s mod 7 = 2" | "s mod 7 = 3"
    | "s mod 7 = 4" | "s mod 7 = 5" | "s mod 7 = 6"
    using assms by linarith
  then have "([0, 1, 4, 5, 2, 3, 6] ! (s mod 7) * (s mod 7)) mod 7 = 1"
    by cases simp_all
  then show ?thesis by (simp only: eq)
qed

lemma of_nat_mod_7: "(of_nat (n mod 7) :: 7) = of_nat n"
proof -
  have "(of_nat n :: 7) = of_nat (7 * (n div 7) + n mod 7)"
    by simp
  also have "\<dots> = of_nat 7 * of_nat (n div 7) + of_nat (n mod 7)"
    by (simp only: of_nat_add of_nat_mult)
  also have "\<dots> = of_nat (n mod 7)"
    by (simp only: of_nat_7 mult_zero_left add_0_left)
  finally show ?thesis by simp
qed

lemma multiple_7:
  fixes P :: 7
  assumes "P \<noteq> 0" and "k mod 7 \<noteq> 0"
  shows "of_nat k * P \<noteq> 0"
proof
  assume z: "of_nat k * P = 0"
  let ?i = "[0, 1, 4, 5, 2, 3, 6] ! (k mod 7) :: nat"
  have "(of_nat (?i * k) :: 7) = of_nat ((?i * k) mod 7)"
    by (simp only: of_nat_mod_7)
  also have "\<dots> = 1"
    using inverse_7[OF assms(2)] by simp
  finally have "(of_nat ?i :: 7) * of_nat k = 1"
    by (simp only: of_nat_mult)
  then have "P = (of_nat ?i * of_nat k) * P" by simp
  also have "\<dots> = of_nat ?i * (of_nat k * P)" by (simp only: mult.assoc)
  also have "\<dots> = 0" by (simp only: z mult_zero_right)
  finally show False using assms(1) by simp
qed

lemma toy_ok: "bn254_ok toy"
  unfolding bn254_ok_def
proof (intro conjI)
  have m: "\<And>(P::7) k. P \<noteq> 0 \<Longrightarrow> 0 < k mod 7 \<Longrightarrow> P * of_nat k \<noteq> 0"
    using multiple_7 by (simp add: mult.commute)
  show "ecp_group toy"
    by (simp add: ecp_group_def algebra_simps mult_7 m)
  show "ecp2_group toy"
    by (simp add: ecp2_group_def algebra_simps mult_7 m)
  show "fp12_monoid toy"
    by (simp add: fp12_monoid_def algebra_simps)
  show "bilinear toy"
    by (simp add: bilinear_def distrib_right[symmetric] distrib_left[symmetric])
  show "generators_ok toy"
    by (simp add: generators_ok_def)
  show "scalar_field toy"
    using inverse_7 by (simp add: scalar_field_def)
qed

lemma keygen_sign_verify:
  assumes "bn254_ok L" and "1 \<le> ell"
    and "scheme_key_gen sch L ell g0 = ((pk, sk), g1)"
    and "length M = nat ell" and "list_all (in_message_group sch) M"
    and "g 0 mod curve_r L \<noteq> 0"
    and "no_neutral L pk" and "no_neutral L M" and "sum_not_neutral L sk M"
  shows "\<exists>sg g'. scheme_sign sch L sk M g = (Inr sg, g') \<and> scheme_verify sch L pk M sg = Inr True"
proof -
  from assms(3) have pk: "pk = keys_of L sch sk" and sk: "length sk = nat ell"
    by (auto simp: scheme_key_gen_eq)
  have "sk \<noteq> []" "M \<noteq> []" using sk assms(2,4) by auto
  then show ?thesis
    using scheme_sign_verify[of L sk M sch g] assms(1,5,6,7,8,9) pk by blast
qed

section \<open>Properties of the signature schemes\<close>










text \<open>
  C10 (the conversions do not read the key or the message). \<open>convert_signature\<close> returns
  the same result and leaves the random source in the same state whatever public key and
  message it is given; \<open>change_representation\<close> does so whatever public key it is given.
  The dual class inherits both methods, so this covers both schemes.
\<close>

theorem conversions_ignore_key_and_message:
  "convert_signature L pk M sg rho g = convert_signature L pk' M' sg rho g \<and>
   change_representation L pk M sg mu g = change_representation L pk' M sg mu g"
  by (simp add: convert_signature_def change_representation_def)

section \<open>Properties of the construction, of lengths and of hashing\<close>

lemma init_eq:
  "DelegatableAnonCredScheme L ell g =
     (\<lparr>even_issuer_scheme = MercurialSignatureDual, odd_issuer_scheme = MercurialSignatureScheme,
       key_length = ell,
       initial_pk = keys_of L MercurialSignatureDual (map g [0..<nat ell]),
       initial_sk = map g [0..<nat ell],
       initial_nym = Tuple (PointList (keys_of L MercurialSignatureDual (map g [0..<nat ell]))) NoneObj\<rparr>,
      \<lambda>m. g (m + nat ell))"
  by (simp add: DelegatableAnonCredScheme_def scheme_key_gen_eq Let_def)

lemma sign_take:
  "sign L sk M g = sign L (take (min (length sk) (length M)) sk) (take (min (length sk) (length M)) M) g"
proof -
  have "zip (take (min (length sk) (length M)) sk) (take (min (length sk) (length M)) M) = zip sk M"
    by (simp add: take_zip[symmetric])
  then show ?thesis by (simp add: sign_def)
qed

lemma dual_sign_take:
  "dual_sign L sk M g
     = dual_sign L (take (min (length sk) (length M)) sk) (take (min (length sk) (length M)) M) g"
proof -
  have "zip (take (min (length sk) (length M)) sk) (take (min (length sk) (length M)) M) = zip sk M"
    by (simp add: take_zip[symmetric])
  then show ?thesis by (simp add: dual_sign_def)
qed

lemma scheme_sign_take:
  "scheme_sign sch L sk M g
     = scheme_sign sch L (take (min (length sk) (length M)) sk) (take (min (length sk) (length M)) M) g"
  by (cases sch) (simp_all only: scheme_sign.simps sign_take[of L sk M g] dual_sign_take[of L sk M g])

lemma scheme_sign_returns:
  assumes "sk \<noteq> []" "M \<noteq> []" "list_all (in_message_group sch) M"
  shows "\<exists>sg. fst (scheme_sign sch L sk M g) = Inr sg"
proof (cases sch)
  case MercurialSignatureScheme
  then obtain Ms where M: "M = map ECp Ms"
    using assms(3) in_message_group_primary by blast
  have "zip sk Ms \<noteq> []" using assms(1,2) M by (cases sk; cases Ms) auto
  then show ?thesis
    by (simp add: MercurialSignatureScheme M sign_value)
next
  case MercurialSignatureDual
  then obtain Ms where M: "M = map ECp2 Ms"
    using assms(3) in_message_group_dual by blast
  have ne: "zip sk Ms \<noteq> []" using assms(1,2) M by (cases sk; cases Ms) auto
  have m: "map swp (map ECp2 Ms) = (map ECp Ms :: ('b, 'a) point list)"
    by simp
  show ?thesis
    unfolding MercurialSignatureDual scheme_sign.simps M dual_sign_swap m sign_value[OF ne]
    by (simp add: swp_sig_def)
qed

lemma hm_loop_first:
  "(\<forall>j<k. set_x (hm + j) = None) \<Longrightarrow> set_x (hm + k) = Some P \<Longrightarrow> hm_loop set_x hm = Some P"
proof (induction k arbitrary: hm)
  case 0
  then show ?case by (subst hm_loop.simps) simp
next
  case (Suc k)
  have "set_x hm = None" using Suc.prems(1)[rule_format, of 0] by simp
  moreover have "hm_loop set_x (hm + 1) = Some P"
  proof (rule Suc.IH)
    show "\<forall>j<k. set_x (hm + 1 + j) = None"
      using Suc.prems(1) by (metis Suc_less_eq add_Suc_right add_Suc_shift One_nat_def add.right_neutral)
    show "set_x (hm + 1 + k) = Some P" using Suc.prems(2) by simp
  qed
  ultimately show ?case by (subst hm_loop.simps) simp
qed

text \<open>
  C7 (the stored initial pseudonym). As stated, the attribute \<open>initial_nym\<close> would be the
  list \<open>initial_pk\<close> itself. The constructor stores the tuple \<open>(initial_pk, None)\<close>, which
  is a different Python value.
\<close>

theorem initial_nym_counterexample:
  "initial_nym (fst (DelegatableAnonCredScheme toy 1 (\<lambda>n. 1)))
     \<noteq> PointList (initial_pk (fst (DelegatableAnonCredScheme toy 1 (\<lambda>n. 1))))"
  by (simp add: init_eq)

text \<open>
  C7, amended. After construction with key length \<open>ell\<close>, \<open>initial_nym\<close> is the pair whose
  first entry is \<open>initial_pk\<close> and whose second entry is \<open>None\<close>, and \<open>initial_pk\<close> has
  \<open>ell\<close> entries.
\<close>

theorem initial_nym_is_pair:
  "initial_nym (fst (DelegatableAnonCredScheme L ell g))
     = Tuple (PointList (initial_pk (fst (DelegatableAnonCredScheme L ell g)))) NoneObj \<and>
   length (initial_pk (fst (DelegatableAnonCredScheme L ell g))) = nat ell"
  by (simp add: init_eq keys_of_def)




text \<open>
  C9 (hash determinism). As stated, two calls of the dual \<open>hash_message\<close> on the same
  string would return the same point. The second call draws the next sample and returns
  another point.
\<close>

theorem dual_hash_counterexample:
  "fst (dual_hash_message toy ''foo'' (\<lambda>n. n + 1))
     \<noteq> fst (dual_hash_message toy ''foo'' (snd (dual_hash_message toy ''foo'' (\<lambda>n. n + 1))))"
  by (simp add: dual_hash_message_def big_rand_def)

text \<open>
  C9, amended. The primary \<open>hash_message\<close> reads no randomness and its result is fixed by
  its input: when \<open>ECp.set\<close> rejects the \<open>k\<close> abscissas from the digest on and accepts
  the next one, the result is \<open>curve.x\<close> times the point set there. The dual
  \<open>hash_message\<close> returns the next sample times the generator of the second group,
  whatever the string.
\<close>

theorem hash_message_determined:
  "((\<forall>j<k. ecp_set L (from_bytes L (shake_256 L s (curve_EFS L)) + j) = None) \<and>
    ecp_set L (from_bytes L (shake_256 L s (curve_EFS L)) + k) = Some P
      \<longrightarrow> hash_message L s = Some (smul L (curve_x L) (ECp P))) \<and>
   dual_hash_message L s g = (smul L (g 0) (ECp2 (ecp2_generator L)), \<lambda>n. g (Suc n))"
  by (auto simp: hash_message_def dual_hash_message_def big_rand_def hm_loop_first)

theorem hash_message_determined_witness:
  "ecp_set toy (from_bytes toy (shake_256 toy ''ab'' (curve_EFS toy)) + 0) = None \<and>
   ecp_set toy (from_bytes toy (shake_256 toy ''ab'' (curve_EFS toy)) + 1) = Some 3 \<and>
   hash_message toy ''ab'' = Some (ECp 3)"
  using hash_message_determined[of 1 toy "''ab''" 3]
  by (simp add: toy_def)

section \<open>The credential chain\<close>

subsection \<open>What verify\_chain computes\<close>

lemma err_bind_True_iff:
  "err_bind m (\<lambda>ok. if \<not> ok then Inr False else k) = Inr True \<longleftrightarrow> m = Inr True \<and> k = Inr True"
  by (cases m) auto

lemma verify_chain_loop_iff:
  assumes "\<forall>i\<in>set js. i + 1 < length nyms \<and> i + 1 < length sigs"
  shows "verify_chain_loop L D js nyms sigs = Inr True \<longleftrightarrow> (\<forall>i\<in>set js. link_ok L D nyms sigs i)"
  using assms
proof (induction js)
  case Nil
  then show ?case by simp
next
  case (Cons i js)
  then show ?case
    by (simp add: err_bind_True_iff link_ok_def issuer_scheme_of_def Let_def not_le)
qed

lemma verify_chain_iff:
  "verify_chain L D (nyms, sigs) = Inr True \<longleftrightarrow>
     length nyms = length sigs \<and> nyms \<noteq> [] \<and>
     scheme_verify (even_issuer_scheme D) L (initial_pk D) (nyms ! 0) (sigs ! 0) = Inr True \<and>
     (\<forall>i. i + 1 < length nyms \<longrightarrow> link_ok L D nyms sigs i)"
proof (cases "length nyms = length sigs \<and> nyms \<noteq> []")
  case True
  have "\<forall>i\<in>set [0..<length nyms - 1]. i + 1 < length nyms \<and> i + 1 < length sigs"
    using True by auto
  then have "verify_chain_loop L D [0..<length nyms - 1] nyms sigs = Inr True
        \<longleftrightarrow> (\<forall>i\<in>set [0..<length nyms - 1]. link_ok L D nyms sigs i)"
    by (rule verify_chain_loop_iff)
  moreover have "(\<forall>i\<in>set [0..<length nyms - 1]. link_ok L D nyms sigs i)
        \<longleftrightarrow> (\<forall>i. i + 1 < length nyms \<longrightarrow> link_ok L D nyms sigs i)"
    by (auto simp: less_diff_conv)
  ultimately show ?thesis
    using True by (simp add: verify_chain_def err_bind_True_iff)
next
  case False
  then show ?thesis by (auto simp: verify_chain_def)
qed

lemma init_schemes:
  "even_issuer_scheme (fst (DelegatableAnonCredScheme L ell g)) = MercurialSignatureDual"
  "odd_issuer_scheme (fst (DelegatableAnonCredScheme L ell g)) = MercurialSignatureScheme"
  "initial_pk (fst (DelegatableAnonCredScheme L ell g))
     = keys_of L MercurialSignatureDual (initial_sk (fst (DelegatableAnonCredScheme L ell g)))"
  "length (initial_sk (fst (DelegatableAnonCredScheme L ell g))) = nat ell"
  by (simp_all add: init_eq)

subsection \<open>The loop of issue\_next\<close>

text \<open>
  The invariant at index \<open>i\<close>: the links below \<open>i\<close> are accepted, the pseudonym at \<open>i\<close> is
  the earlier one times the current \<open>rho\<close>, the link from \<open>i\<close> is accepted under the
  earlier pseudonym, and the links above \<open>i\<close> are untouched.
\<close>

lemma snd_convert_signature: "snd (convert_signature L pk M sg rho g) = (\<lambda>n. g (Suc n))"
  by (cases sg) (simp add: convert_signature_eq)

lemma snd_change_representation: "snd (change_representation L pk M sg mu g) = (\<lambda>n. g (Suc n))"
  by (cases sg) (simp add: change_representation_eq)

lemma fst_change_representation:
  "fst (fst (change_representation L pk M sg mu g)) = map (smul L mu) M"
  by (cases sg) (simp add: change_representation_eq)

lemma issue_next_loop_step:
  assumes b: "i + 1 < length nyms" "i + 1 < length sigs"
    and st: "sig_tilde = fst (convert_signature L (nyms ! i) (nyms ! (i + 1)) (sigs ! (i + 1)) rho g)"
    and cr: "cr = fst (change_representation L (nyms ! i) (nyms ! (i + 1)) sig_tilde (g 1)
                        (\<lambda>n. g (n + 2)))"
    and v: "scheme_verify (issuer_scheme_of D i) L (nyms ! i) (fst cr) (snd cr) = Inr True"
  shows "issue_next_loop L D (i # js) nyms sigs rho g
           = issue_next_loop L D js (nyms[i + 1 := fst cr]) (sigs[i + 1 := snd cr]) (g 1)
               (\<lambda>n. g (n + 3))"
proof -
  obtain st' g1 where c: "convert_signature L (nyms ! i) (nyms ! (i + 1)) (sigs ! (i + 1)) rho g = (st', g1)"
    by (cases "convert_signature L (nyms ! i) (nyms ! (i + 1)) (sigs ! (i + 1)) rho g")
  have st': "st' = sig_tilde" using c st by simp
  have g1: "g1 = (\<lambda>n. g (Suc n))" using c snd_convert_signature[of L "nyms ! i" "nyms ! (i + 1)" "sigs ! (i + 1)" rho g] by simp
  obtain cr' g3 where d: "change_representation L (nyms ! i) (nyms ! (i + 1)) sig_tilde (g 1)
                        (\<lambda>n. g (n + 2)) = (cr', g3)"
    by (cases "change_representation L (nyms ! i) (nyms ! (i + 1)) sig_tilde (g 1) (\<lambda>n. g (n + 2))")
  have cr': "cr' = cr" using d cr by simp
  have g3: "g3 = (\<lambda>n. g (n + 3))"
    using d snd_change_representation[of L "nyms ! i" "nyms ! (i + 1)" sig_tilde "g 1" "\<lambda>n. g (n + 2)"]
    by (simp add: numeral_3_eq_3)
  have rz: "random_zp L g1 = (g 1, \<lambda>n. g (n + 2))"
    by (simp add: random_zp_eq g1)
  obtain nym' sig' where ns: "cr = (nym', sig')" by (cases cr)
  have upd: "(nyms[i + 1 := nym']) ! i = nyms ! i" "(nyms[i + 1 := nym']) ! (i + 1) = nym'"
    "(sigs[i + 1 := sig']) ! (i + 1) = sig'"
    using b by simp_all
  have v': "scheme_verify (if i mod 2 = 0 then odd_issuer_scheme D else even_issuer_scheme D) L
         (nyms ! i) nym' sig' = Inr True"
    using v by (simp add: issuer_scheme_of_def ns)
  have "issue_next_loop L D (i # js) nyms sigs rho g
           = issue_next_loop L D js (nyms[i + 1 := nym']) (sigs[i + 1 := sig']) (g 1)
               (\<lambda>n. g (n + 3))"
    using b
    apply (simp only: issue_next_loop.simps c st' rz d cr' g3 ns Let_def prod.case)
    apply (simp add: upd v' del: scheme_verify.simps)
    done
  then show ?thesis by (simp add: ns)
qed

lemma rng_ok_at: "rng_ok L g \<Longrightarrow> g k mod curve_r L \<noteq> 0"
  by (simp add: rng_ok_def)

lemma convert_public_key_map: "convert_public_key L pk rho = map (smul L rho) pk"
  by (simp add: convert_public_key_def)

lemma issue_next_loop_ok:
  assumes ok: "bn254_ok L" and rng: "rng_ok L g"
    and len: "length nyms = n" "length sigs = n" and i: "i < n"
    and before: "\<forall>j<i. link_ok L D nyms sigs j"
    and cur: "nyms ! i = map (smul L rho) Ni"
    and nxt: "i + 1 < n \<longrightarrow>
                scheme_verify (issuer_scheme_of D i) L Ni (nyms ! (i + 1)) (sigs ! (i + 1)) = Inr True"
    and after: "\<forall>j. i < j \<and> j + 1 < n \<longrightarrow> link_ok L D nyms sigs j"
    and m: "m = n - 1 - i"
    and rho: "rho mod curve_r L \<noteq> 0"
  shows "\<exists>nyms' sigs' rho' g'.
           issue_next_loop L D [i..<n - 1] nyms sigs rho g = (Inr (nyms', sigs', rho'), g') \<and>
           rng_ok L g' \<and> length nyms' = n \<and> length sigs' = n \<and>
           (\<forall>j\<le>i. nyms' ! j = nyms ! j \<and> sigs' ! j = sigs ! j) \<and>
           (\<forall>j. j + 1 < n \<longrightarrow> link_ok L D nyms' sigs' j) \<and>
           nyms' ! (n - 1) = map (smul L rho') (if i = n - 1 then Ni else nyms ! (n - 1)) \<and>
           rho' mod curve_r L \<noteq> 0"
  using rng len i before cur nxt after m rho
proof (induction m arbitrary: i nyms sigs rho g Ni)
  case 0
  then have i: "i = n - 1" by simp
  have "\<forall>j. j + 1 < n \<longrightarrow> link_ok L D nyms sigs j"
    using "0.prems"(5) i by (simp add: less_diff_conv)
  then show ?case
    using "0.prems" i by simp
next
  case (Suc m)
  have i1: "i + 1 < n" using Suc.prems(9) by simp
  have b: "i + 1 < length nyms" "i + 1 < length sigs" using i1 Suc.prems(2,3) by simp_all
  define sig_tilde where
    "sig_tilde = fst (convert_signature L (nyms ! i) (nyms ! (i + 1)) (sigs ! (i + 1)) rho g)"
  define cr where
    "cr = fst (change_representation L (nyms ! i) (nyms ! (i + 1)) sig_tilde (g 1) (\<lambda>n. g (n + 2)))"
  have v0: "scheme_verify (issuer_scheme_of D i) L Ni (nyms ! (i + 1)) (sigs ! (i + 1)) = Inr True"
    using Suc.prems(7) i1 by simp
  have v1: "scheme_verify (issuer_scheme_of D i) L (nyms ! i) (nyms ! (i + 1)) sig_tilde = Inr True"
    unfolding sig_tilde_def Suc.prems(6) convert_public_key_map[symmetric]
    using ok v0 rng_ok_at[OF Suc.prems(1), of 0] Suc.prems(10)
    by (rule verify_convert[where g=g])
  have g2: "(\<lambda>n. g (n + 2)) 0 mod curve_r L \<noteq> 0"
    using rng_ok_at[OF Suc.prems(1), of 2] by (simp add: numeral_2_eq_2)
  have g1: "g 1 mod curve_r L \<noteq> 0"
    using Suc.prems(1) by (rule rng_ok_at)
  have v2: "scheme_verify (issuer_scheme_of D i) L (nyms ! i) (fst cr) (snd cr) = Inr True"
    unfolding cr_def
    using ok v1 g2 g1 by (rule verify_change[where g="\<lambda>n. g (n + 2)"])
  have fcr: "fst cr = map (smul L (g 1)) (nyms ! (i + 1))"
    by (simp add: cr_def fst_change_representation)
  let ?nyms = "nyms[i + 1 := fst cr]" and ?sigs = "sigs[i + 1 := snd cr]"
  have step: "issue_next_loop L D (i # [Suc i..<n - 1]) nyms sigs rho g
           = issue_next_loop L D [Suc i..<n - 1] ?nyms ?sigs (g 1) (\<lambda>n. g (n + 3))"
    using b sig_tilde_def cr_def v2 by (rule issue_next_loop_step)
  have upt: "[i..<n - 1] = i # [Suc i..<n - 1]"
    using i1 by (simp add: upt_conv_Cons)
  have IH: "\<exists>nyms' sigs' rho' g'.
           issue_next_loop L D [Suc i..<n - 1] ?nyms ?sigs (g 1) (\<lambda>n. g (n + 3))
             = (Inr (nyms', sigs', rho'), g') \<and>
           rng_ok L g' \<and> length nyms' = n \<and> length sigs' = n \<and>
           (\<forall>j\<le>Suc i. nyms' ! j = ?nyms ! j \<and> sigs' ! j = ?sigs ! j) \<and>
           (\<forall>j. j + 1 < n \<longrightarrow> link_ok L D nyms' sigs' j) \<and>
           nyms' ! (n - 1) = map (smul L rho') (if Suc i = n - 1 then nyms ! (i + 1) else ?nyms ! (n - 1)) \<and>
           rho' mod curve_r L \<noteq> 0"
  proof (rule Suc.IH)
    show "rng_ok L (\<lambda>n. g (n + 3))" using Suc.prems(1) by (rule rng_ok_shift)
    show "length ?nyms = n" "length ?sigs = n" using Suc.prems(2,3) by simp_all
    show "Suc i < n" using i1 by simp
    show "\<forall>j<Suc i. link_ok L D ?nyms ?sigs j"
    proof (intro allI impI)
      fix j assume "j < Suc i"
      then consider "j < i" | "j = i" by linarith
      then show "link_ok L D ?nyms ?sigs j"
      proof cases
        case 1
        then have "link_ok L D nyms sigs j" using Suc.prems(5) by simp
        then show ?thesis using 1 by (simp add: link_ok_def)
      next
        case 2
        then show ?thesis using v2 b by (simp add: link_ok_def)
      qed
    qed
    show "?nyms ! Suc i = map (smul L (g 1)) (nyms ! (i + 1))"
      using b fcr by simp
    show "Suc i + 1 < n \<longrightarrow>
            scheme_verify (issuer_scheme_of D (Suc i)) L (nyms ! (i + 1)) (?nyms ! (Suc i + 1))
              (?sigs ! (Suc i + 1)) = Inr True"
    proof
      assume a: "Suc i + 1 < n"
      then have "link_ok L D nyms sigs (Suc i)" using Suc.prems(8) by simp
      then show "scheme_verify (issuer_scheme_of D (Suc i)) L (nyms ! (i + 1)) (?nyms ! (Suc i + 1))
              (?sigs ! (Suc i + 1)) = Inr True"
        by (simp add: link_ok_def)
    qed
    show "\<forall>j. Suc i < j \<and> j + 1 < n \<longrightarrow> link_ok L D ?nyms ?sigs j"
    proof (intro allI impI)
      fix j assume a: "Suc i < j \<and> j + 1 < n"
      then have "link_ok L D nyms sigs j" using Suc.prems(8) by simp
      then show "link_ok L D ?nyms ?sigs j" using a by (simp add: link_ok_def)
    qed
    show "m = n - 1 - Suc i" using Suc.prems(9) by simp
    show "g 1 mod curve_r L \<noteq> 0" by (rule g1)
  qed
  then obtain nyms' sigs' rho' g' where r:
      "issue_next_loop L D [Suc i..<n - 1] ?nyms ?sigs (g 1) (\<lambda>n. g (n + 3))
             = (Inr (nyms', sigs', rho'), g')"
      "rng_ok L g'" "length nyms' = n" "length sigs' = n"
      "\<forall>j\<le>Suc i. nyms' ! j = ?nyms ! j \<and> sigs' ! j = ?sigs ! j"
      "\<forall>j. j + 1 < n \<longrightarrow> link_ok L D nyms' sigs' j"
      "nyms' ! (n - 1) = map (smul L rho') (if Suc i = n - 1 then nyms ! (i + 1) else ?nyms ! (n - 1))"
      "rho' mod curve_r L \<noteq> 0"
    by blast
  have keep: "\<forall>j\<le>i. nyms' ! j = nyms ! j \<and> sigs' ! j = sigs ! j"
    using r(5) by simp
  have ne: "i \<noteq> n - 1" using i1 by arith
  have e: "(if Suc i = n - 1 then nyms ! (i + 1) else ?nyms ! (n - 1)) = nyms ! (n - 1)"
    by auto
  have last: "nyms' ! (n - 1) = map (smul L rho') (if i = n - 1 then Ni else nyms ! (n - 1))"
    by (simp only: r(7) e ne if_False)
  show ?case
    unfolding upt step
    using r(1,2,3,4,6,8) keep last by blast
qed

subsection \<open>issue\_next and issue\_first\<close>

lemma issue_next_unfold:
  assumes len: "length nyms = length sigs" and ne: "nyms \<noteq> []"
    and cr0: "cr0 = fst (change_representation L (initial_pk D) (nyms ! 0) (sigs ! 0) (g 0)
                          (\<lambda>n. g (Suc n)))"
    and v: "scheme_verify (even_issuer_scheme D) L (initial_pk D) (fst cr0) (snd cr0) = Inr True"
    and loop: "issue_next_loop L D [0..<length nyms - 1] (nyms[0 := fst cr0]) (sigs[0 := snd cr0])
                 (g 0) (\<lambda>n. g (n + 2)) = (Inr (nyms2, sigs2, rho2), g3)"
    and sch: "sch = (if length (nyms2 @ [new_nym]) mod 2 = 0 then odd_issuer_scheme D
                     else even_issuer_scheme D)"
    and sg: "scheme_sign sch L (convert_secret_key sk rho2) new_nym g3 = (Inr s, g4)"
    and v2: "scheme_verify sch L ((nyms2 @ [new_nym]) ! (length (nyms2 @ [new_nym]) - 2)) new_nym s
               = Inr True"
  shows "issue_next L D (nyms, sigs) new_nym sk g = (Inr (nyms2 @ [new_nym], sigs2 @ [s]), g4)"
proof -
  obtain nym0 sig0 where ns: "cr0 = (nym0, sig0)" by (cases cr0)
  have s1: "snd (change_representation L (initial_pk D) (nyms ! 0) (sigs ! 0) (g 0) (\<lambda>n. g (Suc n)))
             = (\<lambda>n. g (n + 2))"
    by (simp add: snd_change_representation)
  have c: "change_representation L (initial_pk D) (nyms ! 0) (sigs ! 0) (g 0) (\<lambda>n. g (Suc n))
             = ((nym0, sig0), \<lambda>n. g (n + 2))"
    using cr0 ns s1 by (simp add: prod_eq_iff)
  have sne: "sigs \<noteq> []" using len ne by auto
  have upd: "(nyms[0 := nym0]) ! 0 = nym0" "(sigs[0 := sig0]) ! 0 = sig0"
    using ne sne by simp_all
  have v': "scheme_verify (even_issuer_scheme D) L (initial_pk D) nym0 sig0 = Inr True"
    using v ns by simp
  have loop': "issue_next_loop L D [0..<length sigs - 1] (nyms[0 := nym0]) (sigs[0 := sig0])
                 (g 0) (\<lambda>n. g (n + 2)) = (Inr (nyms2, sigs2, rho2), g3)"
    using loop ns len by simp
  have sg': "scheme_sign (if length (nyms2 @ [new_nym]) mod 2 = 0 then odd_issuer_scheme D
                     else even_issuer_scheme D) L (convert_secret_key sk rho2) new_nym g3 = (Inr s, g4)"
    using sg sch by simp
  have v2': "scheme_verify (if length (nyms2 @ [new_nym]) mod 2 = 0 then odd_issuer_scheme D
                     else even_issuer_scheme D) L
               ((nyms2 @ [new_nym]) ! (length (nyms2 @ [new_nym]) - 2)) new_nym s = Inr True"
    using v2 sch by simp
  show ?thesis
    using len ne
    apply (simp only: issue_next_def prod.case random_zp_eq Let_def c if_False simp_thms)
    apply (simp only: length_list_update upd v' sum.case if_False simp_thms loop' prod.case sg'
        last_snoc v2' if_True)
    done
qed

lemma issuer_scheme_of_append:
  assumes "length nyms2 = n" "0 < n"
  shows "(if length (nyms2 @ [new_nym]) mod 2 = 0 then odd_issuer_scheme D else even_issuer_scheme D)
           = issuer_scheme_of D (n - 1)"
proof -
  have "(n + 1) mod 2 = 0 \<longleftrightarrow> (n - 1) mod 2 = 0"
    using assms(2) by presburger
  then show ?thesis using assms(1) by (simp add: issuer_scheme_of_def)
qed

lemma issue_next_ok:
  assumes ok: "bn254_ok L" and rng: "rng_ok L g"
    and vc: "verify_chain L D (nyms, sigs) = Inr True"
    and key: "last nyms = keys_of L (issuer_scheme_of D (length nyms - 1)) sk"
    and ne: "sk \<noteq> []" "new_nym \<noteq> []"
    and ty: "list_all (in_message_group (issuer_scheme_of D (length nyms - 1))) new_nym"
    and nl: "no_neutral L (last nyms)" and nn: "no_neutral L new_nym"
    and sn: "sum_not_neutral L sk new_nym"
  shows "\<exists>nyms' sigs' g'.
           issue_next L D (nyms, sigs) new_nym sk g = (Inr (nyms', sigs'), g') \<and> rng_ok L g' \<and>
           verify_chain L D (nyms', sigs') = Inr True \<and>
           length nyms' = length nyms + 1 \<and> last nyms' = new_nym"
proof -
  define n where "n = length nyms"
  from vc have len: "length nyms = length sigs" and nne: "nyms \<noteq> []"
    and root: "scheme_verify (even_issuer_scheme D) L (initial_pk D) (nyms ! 0) (sigs ! 0) = Inr True"
    and links: "\<forall>i. i + 1 < length nyms \<longrightarrow> link_ok L D nyms sigs i"
    unfolding verify_chain_iff by auto
  have n0: "0 < n" using nne by (simp add: n_def)
  have lens: "length sigs = n" using len by (simp add: n_def)
  define cr0 where
    "cr0 = fst (change_representation L (initial_pk D) (nyms ! 0) (sigs ! 0) (g 0) (\<lambda>n. g (Suc n)))"
  have g1: "(\<lambda>n. g (Suc n)) 0 mod curve_r L \<noteq> 0"
    using rng_ok_at[OF rng, of 1] by simp
  have g0: "g 0 mod curve_r L \<noteq> 0"
    using rng by (rule rng_ok_at)
  have vroot: "scheme_verify (even_issuer_scheme D) L (initial_pk D) (fst cr0) (snd cr0) = Inr True"
    unfolding cr0_def using ok root g1 g0 by (rule verify_change[where g="\<lambda>n. g (Suc n)"])
  have fcr0: "fst cr0 = map (smul L (g 0)) (nyms ! 0)"
    by (simp add: cr0_def fst_change_representation)
  let ?nyms1 = "nyms[0 := fst cr0]" and ?sigs1 = "sigs[0 := snd cr0]"
  have "\<exists>nyms2 sigs2 rho2 g3.
           issue_next_loop L D [0..<n - 1] ?nyms1 ?sigs1 (g 0) (\<lambda>n. g (n + 2))
             = (Inr (nyms2, sigs2, rho2), g3) \<and>
           rng_ok L g3 \<and> length nyms2 = n \<and> length sigs2 = n \<and>
           (\<forall>j\<le>0. nyms2 ! j = ?nyms1 ! j \<and> sigs2 ! j = ?sigs1 ! j) \<and>
           (\<forall>j. j + 1 < n \<longrightarrow> link_ok L D nyms2 sigs2 j) \<and>
           nyms2 ! (n - 1) = map (smul L rho2) (if 0 = n - 1 then nyms ! 0 else ?nyms1 ! (n - 1)) \<and>
           rho2 mod curve_r L \<noteq> 0"
  proof (rule issue_next_loop_ok[OF ok])
    show "rng_ok L (\<lambda>n. g (n + 2))" using rng by (rule rng_ok_shift)
    show "length ?nyms1 = n" "length ?sigs1 = n" using lens by (simp_all add: n_def)
    show "0 < n" by (rule n0)
    show "\<forall>j<0. link_ok L D ?nyms1 ?sigs1 j" by simp
    show "?nyms1 ! 0 = map (smul L (g 0)) (nyms ! 0)" using nne fcr0 by simp
    show "0 + 1 < n \<longrightarrow>
            scheme_verify (issuer_scheme_of D 0) L (nyms ! 0) (?nyms1 ! (0 + 1)) (?sigs1 ! (0 + 1))
              = Inr True"
      using links by (simp add: link_ok_def n_def)
    show "\<forall>j. 0 < j \<and> j + 1 < n \<longrightarrow> link_ok L D ?nyms1 ?sigs1 j"
      using links by (simp add: link_ok_def n_def)
    show "n - 1 = n - 1 - 0" by simp
    show "g 0 mod curve_r L \<noteq> 0" by (rule g0)
  qed
  then obtain nyms2 sigs2 rho2 g3 where r:
      "issue_next_loop L D [0..<n - 1] ?nyms1 ?sigs1 (g 0) (\<lambda>n. g (n + 2))
             = (Inr (nyms2, sigs2, rho2), g3)"
      "rng_ok L g3" "length nyms2 = n" "length sigs2 = n"
      "nyms2 ! 0 = ?nyms1 ! 0" "sigs2 ! 0 = ?sigs1 ! 0"
      "\<forall>j. j + 1 < n \<longrightarrow> link_ok L D nyms2 sigs2 j"
      "nyms2 ! (n - 1) = map (smul L rho2) (if 0 = n - 1 then nyms ! 0 else ?nyms1 ! (n - 1))"
      "rho2 mod curve_r L \<noteq> 0"
    by auto
  have "(if 0 = n - 1 then nyms ! 0 else ?nyms1 ! (n - 1)) = nyms ! (n - 1)"
    by auto
  also have "\<dots> = last nyms" using nne by (simp add: last_conv_nth n_def)
  finally have lastn: "nyms2 ! (n - 1) = map (smul L rho2) (last nyms)"
    using r(8) by simp
  define sch where "sch = issuer_scheme_of D (n - 1)"
  have sch: "sch = (if length (nyms2 @ [new_nym]) mod 2 = 0 then odd_issuer_scheme D
                     else even_issuer_scheme D)"
    unfolding sch_def by (rule issuer_scheme_of_append[OF r(3) n0, symmetric])
  have ne': "convert_secret_key sk rho2 \<noteq> []" using ne(1) by (simp add: convert_secret_key_def)
  have ty': "list_all (in_message_group sch) new_nym" using ty by (simp add: sch_def n_def)
  have nk: "no_neutral L (keys_of L sch (convert_secret_key sk rho2))"
    using ok r(9) nl unfolding key sch_def n_def by (rule no_neutral_convert)
  have sn': "sum_not_neutral L (convert_secret_key sk rho2) new_nym"
    using ok r(9) sn by (rule sum_not_neutral_convert)
  obtain s where s: "scheme_sign sch L (convert_secret_key sk rho2) new_nym g3 = (Inr s, \<lambda>n. g3 (Suc n))"
      "scheme_verify sch L (keys_of L sch (convert_secret_key sk rho2)) new_nym s = Inr True"
    using scheme_sign_verify[where L=L and sk="convert_secret_key sk rho2" and M=new_nym
        and sch=sch and g=g3] ok ne' ne(2) ty' rng_ok_at[OF r(2), of 0] nk nn sn' by blast
  have "keys_of L sch (convert_secret_key sk rho2) = map (smul L rho2) (last nyms)"
    using convert_keys_of[OF ok, of sch sk rho2, symmetric] key
    by (simp add: sch_def n_def convert_public_key_map)
  then have pk: "keys_of L sch (convert_secret_key sk rho2) = nyms2 ! (n - 1)"
    using lastn by simp
  have idx: "(nyms2 @ [new_nym]) ! (length (nyms2 @ [new_nym]) - 2) = nyms2 ! (n - 1)"
    using r(3) n0 by (simp add: nth_append)
  have v2: "scheme_verify sch L ((nyms2 @ [new_nym]) ! (length (nyms2 @ [new_nym]) - 2)) new_nym s
               = Inr True"
    using s(2) by (simp only: idx pk)
  have loop: "issue_next_loop L D [0..<length nyms - 1] ?nyms1 ?sigs1 (g 0) (\<lambda>n. g (n + 2))
                = (Inr (nyms2, sigs2, rho2), g3)"
    using r(1) by (simp add: n_def)
  have res: "issue_next L D (nyms, sigs) new_nym sk g
               = (Inr (nyms2 @ [new_nym], sigs2 @ [s]), \<lambda>n. g3 (Suc n))"
    using len nne cr0_def vroot loop sch s(1) v2 by (rule issue_next_unfold)
  have root': "scheme_verify (even_issuer_scheme D) L (initial_pk D)
                 ((nyms2 @ [new_nym]) ! 0) ((sigs2 @ [s]) ! 0) = Inr True"
    using vroot r(3,4,5,6) n0 nne lens by (simp add: nth_append)
  have links': "\<forall>i. i + 1 < length (nyms2 @ [new_nym]) \<longrightarrow>
                  link_ok L D (nyms2 @ [new_nym]) (sigs2 @ [s]) i"
  proof (intro allI impI)
    fix i assume "i + 1 < length (nyms2 @ [new_nym])"
    then have "i < n" using r(3) by simp
    then consider "i + 1 < n" | "i = n - 1" by linarith
    then show "link_ok L D (nyms2 @ [new_nym]) (sigs2 @ [s]) i"
    proof cases
      case 1
      then have "link_ok L D nyms2 sigs2 i" using r(7) by simp
      then show ?thesis using 1 r(3,4) by (simp add: link_ok_def nth_append)
    next
      case 2
      have "scheme_verify sch L (nyms2 ! (n - 1)) new_nym s = Inr True"
        using s(2) pk by simp
      then show ?thesis
        using 2 r(3,4) n0 by (simp add: link_ok_def nth_append sch_def)
    qed
  qed
  have "verify_chain L D (nyms2 @ [new_nym], sigs2 @ [s]) = Inr True"
    unfolding verify_chain_iff using root' links' r(3,4) by simp
  then show ?thesis
    using res r(2,3) rng_ok_tl[OF r(2)] by (simp add: n_def)
qed

subsection \<open>Legal sequences of issuances\<close>

lemma verify_nonempty:
  assumes "scheme_verify sch L pk M sg = Inr True"
  shows "pk \<noteq> [] \<and> M \<noteq> []"
proof (cases sch)
  case MercurialSignatureScheme
  then have "verify L pk M sg = Inr True" using assms by simp
  then obtain qs where "zip pk M = map tagp qs" "qs \<noteq> []"
    unfolding verify_iff by blast
  then show ?thesis by auto
next
  case MercurialSignatureDual
  then have "verify (swap_lib L) (map swp pk) (map swp M) (swp_sig sg) = Inr True"
    using assms by (simp add: dual_verify_swap)
  then obtain qs where "zip (map swp pk) (map swp M) = map tagp qs" "qs \<noteq> []"
    unfolding verify_iff by blast
  then show ?thesis by auto
qed

lemma chain_last_nonempty:
  assumes "verify_chain L D (nyms, sigs) = Inr True"
  shows "last nyms \<noteq> []"
proof -
  from assms have len: "length nyms = length sigs" and nne: "nyms \<noteq> []"
    and root: "scheme_verify (even_issuer_scheme D) L (initial_pk D) (nyms ! 0) (sigs ! 0) = Inr True"
    and links: "\<forall>i. i + 1 < length nyms \<longrightarrow> link_ok L D nyms sigs i"
    unfolding verify_chain_iff by auto
  show ?thesis
  proof (cases "length nyms = 1")
    case True
    then have "last nyms = nyms ! 0" using nne by (simp add: last_conv_nth)
    then show ?thesis using verify_nonempty[OF root] by simp
  next
    case False
    then have "length nyms - 2 + 1 < length nyms" using nne by (cases nyms) auto
    then have "link_ok L D nyms sigs (length nyms - 2)" using links by blast
    then have "nyms ! (length nyms - 2 + 1) \<noteq> []"
      unfolding link_ok_def using verify_nonempty by blast
    moreover have "length nyms - 2 + 1 = length nyms - 1"
      using False nne by (cases nyms) auto
    ultimately show ?thesis using nne by (simp add: last_conv_nth)
  qed
qed

lemma keys_in_message_group:
  "list_all (in_message_group MercurialSignatureDual) (keys_of L MercurialSignatureScheme sk)"
  "list_all (in_message_group MercurialSignatureScheme) (keys_of L MercurialSignatureDual sk)"
  by (simp_all add: keys_of_def list_all_iff)

lemma new_user_eq:
  assumes ok: "bn254_ok L" and rng: "rng_ok L g"
  shows "\<exists>sk_even sk_odd.
           new_user L D g =
             (((keys_of L (even_issuer_scheme D) sk_even, sk_even),
               (keys_of L (odd_issuer_scheme D) sk_odd, sk_odd)),
              \<lambda>n. g (n + (nat (key_length D) + nat (key_length D) + 2))) \<and>
           length sk_even = nat (key_length D) \<and> length sk_odd = nat (key_length D) \<and>
           no_neutral L (keys_of L (even_issuer_scheme D) sk_even) \<and>
           no_neutral L (keys_of L (odd_issuer_scheme D) sk_odd)"
proof -
  let ?l = "nat (key_length D)"
  let ?xe = "map g [0..<?l]" and ?xo = "map (\<lambda>m. g (m + ?l)) [0..<?l]"
  let ?g2 = "\<lambda>m. g (m + ?l + ?l)"
  have kg: "dac_key_gen L D g =
        (((keys_of L (even_issuer_scheme D) ?xe, ?xe), (keys_of L (odd_issuer_scheme D) ?xo, ?xo)), ?g2)"
    by (simp add: dac_key_gen_def scheme_key_gen_eq Let_def)
  have "new_user L D g =
          (((keys_of L (even_issuer_scheme D) (convert_secret_key ?xe (?g2 0)),
             convert_secret_key ?xe (?g2 0)),
            (keys_of L (odd_issuer_scheme D) (convert_secret_key ?xo (?g2 1)),
             convert_secret_key ?xo (?g2 1))),
           \<lambda>n. ?g2 (n + 2))"
    by (simp add: new_user_def kg nym_gen_def random_zp_eq convert_keys_of[OF ok] Let_def)
  moreover have "(\<lambda>n. ?g2 (n + 2)) = (\<lambda>n. g (n + (?l + ?l + 2)))"
    by (simp add: add.assoc add.commute add.left_commute)
  moreover have "no_neutral L (keys_of L (even_issuer_scheme D) (convert_secret_key ?xe (?g2 0)))"
  proof (rule no_neutral_convert[OF ok])
    show "?g2 0 mod curve_r L \<noteq> 0" using rng by (rule rng_ok_at)
    show "no_neutral L (keys_of L (even_issuer_scheme D) ?xe)"
      using ok rng by (intro no_neutral_keys_of) (simp_all add: rng_ok_def)
  qed
  moreover have "no_neutral L (keys_of L (odd_issuer_scheme D) (convert_secret_key ?xo (?g2 1)))"
  proof (rule no_neutral_convert[OF ok])
    show "?g2 1 mod curve_r L \<noteq> 0" using rng by (rule rng_ok_at)
    show "no_neutral L (keys_of L (odd_issuer_scheme D) ?xo)"
      using ok rng by (intro no_neutral_keys_of) (simp_all add: rng_ok_def)
  qed
  ultimately show ?thesis
    by (intro exI[of _ "convert_secret_key ?xe (?g2 0)"] exI[of _ "convert_secret_key ?xo (?g2 1)"])
       (simp add: convert_secret_key_def)
qed

lemma issue_first_ok:
  assumes ok: "bn254_ok L" and rng: "rng_ok L g"
    and pk: "initial_pk D = keys_of L (even_issuer_scheme D) (initial_sk D)"
    and ne: "initial_sk D \<noteq> []" "nym \<noteq> []"
    and ty: "list_all (in_message_group (even_issuer_scheme D)) nym"
    and nk: "no_neutral L (initial_pk D)" and nn: "no_neutral L nym"
    and sn: "sum_not_neutral L (initial_sk D) nym"
  shows "\<exists>sig1. issue_first L D nym g = (Inr ([nym], [sig1]), \<lambda>n. g (Suc n)) \<and>
           verify_chain L D ([nym], [sig1]) = Inr True"
proof -
  have nk': "no_neutral L (keys_of L (even_issuer_scheme D) (initial_sk D))"
    using nk pk by simp
  obtain s where s: "scheme_sign (even_issuer_scheme D) L (initial_sk D) nym g = (Inr s, \<lambda>n. g (Suc n))"
      "scheme_verify (even_issuer_scheme D) L (keys_of L (even_issuer_scheme D) (initial_sk D)) nym s
         = Inr True"
    using scheme_sign_verify[where L=L and sk="initial_sk D" and M=nym
        and sch="even_issuer_scheme D" and g=g] ok ne ty rng_ok_at[OF rng, of 0] nk' nn sn by blast
  have "issue_first L D nym g = (Inr ([nym], [s]), \<lambda>n. g (Suc n))"
    by (simp add: issue_first_def s(1))
  moreover have "verify_chain L D ([nym], [s]) = Inr True"
    unfolding verify_chain_iff using s(2) pk by simp
  ultimately show ?thesis by blast
qed

lemma delegate_ok:
  assumes ok: "bn254_ok L"
    and ev: "even_issuer_scheme D = MercurialSignatureDual"
    and od: "odd_issuer_scheme D = MercurialSignatureScheme"
    and pk: "initial_pk D = keys_of L (even_issuer_scheme D) (initial_sk D)"
    and ne: "initial_sk D \<noteq> []" and ell: "0 < nat (key_length D)"
    and rng: "rng_ok L g"
    and nk: "no_neutral L (initial_pk D)"
  shows "signed_sums_ok L D k g \<Longrightarrow>
         \<exists>nyms sigs sk g'.
           delegate L D k g = (Inr ((nyms, sigs), sk), g') \<and> rng_ok L g' \<and>
           verify_chain L D (nyms, sigs) = Inr True \<and> length nyms = k + 1 \<and>
           last nyms = keys_of L (issuer_scheme_of D k) sk \<and> sk \<noteq> [] \<and>
           no_neutral L (last nyms)"
proof (induction k)
  case 0
  obtain sk_even sk_odd where u:
      "new_user L D g =
             (((keys_of L (even_issuer_scheme D) sk_even, sk_even),
               (keys_of L (odd_issuer_scheme D) sk_odd, sk_odd)),
              \<lambda>n. g (n + (nat (key_length D) + nat (key_length D) + 2)))"
      "length sk_even = nat (key_length D)" "length sk_odd = nat (key_length D)"
      "no_neutral L (keys_of L (even_issuer_scheme D) sk_even)"
      "no_neutral L (keys_of L (odd_issuer_scheme D) sk_odd)"
    using new_user_eq[OF ok rng, of D] by blast
  let ?g1 = "\<lambda>n. g (n + (nat (key_length D) + nat (key_length D) + 2))"
  let ?nym = "keys_of L (odd_issuer_scheme D) sk_odd"
  have so: "sk_odd \<noteq> []" using u(3) ell by auto
  have nne: "?nym \<noteq> []" using so by (simp add: keys_of_def)
  have ty: "list_all (in_message_group (even_issuer_scheme D)) ?nym"
    by (simp only: ev od keys_in_message_group)
  have sn: "sum_not_neutral L (initial_sk D) ?nym"
    using "0.prems" by (simp only: signed_sums_ok.simps u(1) prod.case Let_def)
  obtain sig1 where f: "issue_first L D ?nym ?g1 = (Inr ([?nym], [sig1]), \<lambda>n. ?g1 (Suc n))"
      "verify_chain L D ([?nym], [sig1]) = Inr True"
    using issue_first_ok[OF ok rng_ok_shift[OF rng] pk ne nne ty nk u(5) sn] by blast
  have "delegate L D 0 g = (Inr (([?nym], [sig1]), sk_odd), \<lambda>n. ?g1 (Suc n))"
    by (simp only: delegate.simps u(1) f(1) prod.case Let_def err_bind_simps)
  moreover have "rng_ok L (\<lambda>n. ?g1 (Suc n))"
    using rng by (simp add: rng_ok_def)
  moreover have "last [?nym] = keys_of L (issuer_scheme_of D 0) sk_odd"
    by (simp add: issuer_scheme_of_def)
  moreover have "length [?nym] = 0 + 1" by simp
  moreover have "no_neutral L (last [?nym])" using u(5) by simp
  ultimately show ?case using f(2) so by blast
next
  case (Suc k)
  have ssk: "signed_sums_ok L D k g" using Suc.prems by simp
  then obtain nyms sigs sk g1 where d:
      "delegate L D k g = (Inr ((nyms, sigs), sk), g1)" "rng_ok L g1"
      "verify_chain L D (nyms, sigs) = Inr True" "length nyms = k + 1"
      "last nyms = keys_of L (issuer_scheme_of D k) sk" "sk \<noteq> []"
      "no_neutral L (last nyms)"
    using Suc.IH by blast
  obtain sk_even sk_odd where u:
      "new_user L D g1 =
             (((keys_of L (even_issuer_scheme D) sk_even, sk_even),
               (keys_of L (odd_issuer_scheme D) sk_odd, sk_odd)),
              \<lambda>n. g1 (n + (nat (key_length D) + nat (key_length D) + 2)))"
      "length sk_even = nat (key_length D)" "length sk_odd = nat (key_length D)"
      "no_neutral L (keys_of L (even_issuer_scheme D) sk_even)"
      "no_neutral L (keys_of L (odd_issuer_scheme D) sk_odd)"
    using new_user_eq[OF ok d(2), of D] by blast
  let ?g2 = "\<lambda>n. g1 (n + (nat (key_length D) + nat (key_length D) + 2))"
  define new_sk where "new_sk = (if k mod 2 = 0 then sk_even else sk_odd)"
  define new_nym where "new_nym = keys_of L (issuer_scheme_of D (Suc k)) new_sk"
  have pick: "(if k mod 2 = 0 then (keys_of L (even_issuer_scheme D) sk_even, sk_even)
               else (keys_of L (odd_issuer_scheme D) sk_odd, sk_odd)) = (new_nym, new_sk)"
    by (auto simp: new_nym_def new_sk_def issuer_scheme_of_def mod_Suc)
  have nsk: "new_sk \<noteq> []" using u(2,3) ell by (auto simp: new_sk_def)
  have nne: "new_nym \<noteq> []" using nsk by (simp add: new_nym_def keys_of_def)
  have nn: "no_neutral L new_nym"
    using u(4,5) by (auto simp: new_nym_def new_sk_def issuer_scheme_of_def mod_Suc)
  have sn: "sum_not_neutral L sk new_nym"
    using Suc.prems by (simp only: signed_sums_ok.simps d(1) u(1) pick prod.case sum.case Let_def)
  have ty: "list_all (in_message_group (issuer_scheme_of D (length nyms - 1))) new_nym"
    unfolding new_nym_def d(4)
    by (cases "k mod 2 = 0")
       (simp_all add: issuer_scheme_of_def mod_Suc ev od keys_in_message_group)
  have key: "last nyms = keys_of L (issuer_scheme_of D (length nyms - 1)) sk"
    using d(4,5) by simp
  obtain nyms' sigs' g' where n:
      "issue_next L D (nyms, sigs) new_nym sk ?g2 = (Inr (nyms', sigs'), g')" "rng_ok L g'"
      "verify_chain L D (nyms', sigs') = Inr True"
      "length nyms' = length nyms + 1" "last nyms' = new_nym"
    using issue_next_ok[OF ok rng_ok_shift[OF d(2)] d(3) key d(6) nne ty d(7) nn sn] by blast
  have "delegate L D (Suc k) g = (Inr ((nyms', sigs'), new_sk), g')"
    by (simp only: delegate.simps d(1) u(1) pick n(1) prod.case sum.case Let_def err_bind_simps)
  moreover have "length nyms' = Suc k + 1" using n(4) d(4) by simp
  moreover have "last nyms' = keys_of L (issuer_scheme_of D (Suc k)) new_sk"
    using n(5) by (simp add: new_nym_def)
  moreover have "no_neutral L (last nyms')" using n(5) nn by simp
  ultimately show ?case
    using n(2,3) nsk by blast
qed

text \<open>
  C2 (which variant checks which position). As stated, the root key pair would be a
  primary key pair, with public-key points \<open>sk[i]\<close> times the generator of the second
  group, and \<open>verify_chain\<close> would check \<open>sig_list[0]\<close> with the primary \<open>verify\<close>.
  The constructor draws the root key pair from the dual class, so the root public key lies
  in the first group, and on a chain that \<open>verify_chain\<close> accepts the primary \<open>verify\<close>
  under \<open>initial_pk\<close> does not return true.
\<close>

theorem chain_variants_counterexample:
  "initial_pk (fst (DelegatableAnonCredScheme toy 1 (\<lambda>n. 1)))
     \<noteq> map (\<lambda>x. smul toy x (ECp2 (ecp2_generator toy)))
          (initial_sk (fst (DelegatableAnonCredScheme toy 1 (\<lambda>n. 1)))) \<and>
   verify_chain toy (fst (DelegatableAnonCredScheme toy 1 (\<lambda>n. 1)))
     ([[ECp2 2]], [(ECp2 2, ECp2 1, ECp 1)]) = Inr True \<and>
   verify toy (initial_pk (fst (DelegatableAnonCredScheme toy 1 (\<lambda>n. 1))))
     [ECp2 2] (ECp2 2, ECp2 1, ECp 1) \<noteq> Inr True"
  by (simp add: init_eq keys_of_def verify_chain_def dual_verify_def verify_def)

text \<open>
  C2, amended. The root key pair generated at construction is a dual key pair: its
  public-key points are \<open>sk[i]\<close> times the generator of the first group. \<open>verify_chain\<close>
  returns true exactly when the two lists have equal length and are not empty, the dual
  \<open>verify\<close> accepts \<open>sig_list[0]\<close> over \<open>nym_list[0]\<close> under \<open>initial_pk\<close>, and for every
  \<open>i\<close> the signature \<open>sig_list[i+1]\<close> over \<open>nym_list[i+1]\<close> under \<open>nym_list[i]\<close> is accepted
  by the primary \<open>verify\<close> when \<open>i\<close> is even and by the dual \<open>verify\<close> when \<open>i\<close> is odd.
\<close>

theorem chain_variants:
  "initial_pk (fst (DelegatableAnonCredScheme L ell g))
     = map (\<lambda>x. smul L x (ECp (ecp_generator L)))
         (initial_sk (fst (DelegatableAnonCredScheme L ell g))) \<and>
   (verify_chain L (fst (DelegatableAnonCredScheme L ell g)) (nym_list, sig_list) = Inr True \<longleftrightarrow>
      length nym_list = length sig_list \<and> nym_list \<noteq> [] \<and>
      dual_verify L (initial_pk (fst (DelegatableAnonCredScheme L ell g)))
        (nym_list ! 0) (sig_list ! 0) = Inr True \<and>
      (\<forall>i. i + 1 < length nym_list \<longrightarrow>
         (if even i then verify else dual_verify) L
           (nym_list ! i) (nym_list ! (i + 1)) (sig_list ! (i + 1)) = Inr True))"
proof -
  have "\<And>i. link_ok L (fst (DelegatableAnonCredScheme L ell g)) nym_list sig_list i \<longleftrightarrow>
      (if even i then verify else dual_verify) L
           (nym_list ! i) (nym_list ! (i + 1)) (sig_list ! (i + 1)) = Inr True"
    by (simp add: link_ok_def issuer_scheme_of_def init_schemes even_iff_mod_2_eq_zero)
  then show ?thesis
    by (simp add: verify_chain_iff init_schemes(1,2) init_eq keys_of_def)
qed

theorem chain_variants_witness:
  "verify_chain toy (fst (DelegatableAnonCredScheme toy 1 (\<lambda>n. 1)))
     ([[ECp2 2], [ECp 3]], [(ECp2 2, ECp2 1, ECp 1), (ECp 6, ECp 1, ECp2 1)]) = Inr True"
proof -
  have "\<And>i::nat. i + 1 < 2 \<longleftrightarrow> i = 0" by auto
  then show ?thesis
    using chain_variants[of toy 1 "\<lambda>n. 1" "[[ECp2 2], [ECp 3]]"
        "[(ECp2 2, ECp2 1, ECp 1), (ECp 6, ECp 1, ECp2 1)]"]
    by (simp add: init_eq keys_of_def dual_verify_def verify_def)
qed







end
